theory Spec2Isabelle
  imports Main "HOL-Library.Word" "HOL-Library.Char_ord" "HOL-Library.List_Lexorder"
begin

unbundle bit_operations_syntax

section \<open>The store of Merkle nodes\<close>

text \<open>
  \<^verbatim>\<open>merkle_tree.cpp\<close> builds its tree out of heap-allocated \<^verbatim>\<open>MerkleNode\<close> structs that
  point at each other (\<^verbatim>\<open>left\<close>, \<^verbatim>\<open>right\<close>, \<^verbatim>\<open>parent\<close>), and \<^verbatim>\<open>generate_merkle_proof\<close>
  compares pointers. The model keeps an explicit store: a list of nodes, the address of a
  node being its index. \<^verbatim>\<open>new MerkleNode(h)\<close> appends a node and returns its index; a
  pointer is an optional address, \<open>None\<close> being \<^verbatim>\<open>nullptr\<close>.
\<close>

type_synonym addr = nat

type_synonym ptr = "addr option"

record MerkleNode =
  hash :: string
  left :: ptr
  right :: ptr
  parent :: ptr

type_synonym heap = "MerkleNode list"

text \<open>
  The program has no exception of its own. What C++ leaves undefined is an error value of
  the model: dereferencing \<^verbatim>\<open>nullptr\<close>, dereferencing a pointer to no live node, and
  \<^verbatim>\<open>operator[]\<close> past the end of a vector.
\<close>

datatype error = NullDereference | WildDereference | VectorOutOfRange

fun deref :: "heap \<Rightarrow> ptr \<Rightarrow> error + MerkleNode" where
  "deref h None = Inl NullDereference"
| "deref h (Some a) = (if a < length h then Inr (h ! a) else Inl WildDereference)"

text \<open>The constructor \<^verbatim>\<open>MerkleNode(string h)\<close> followed by \<^verbatim>\<open>new\<close>.\<close>

definition new_node :: "string \<Rightarrow> heap \<Rightarrow> heap \<times> addr" where
  "new_node hh h =
     (h @ [\<lparr>hash = hh, left = None, right = None, parent = None\<rparr>], length h)"

section \<open>Hashing\<close>

text \<open>
  \<^verbatim>\<open>std::hash<string>\<close> is implementation-defined, so it is a parameter \<open>hasher\<close> of every
  function that hashes; its result is a \<^verbatim>\<open>size_t\<close>, taken as a 64-bit word.
  \<^verbatim>\<open>std::to_string\<close> prints that value in decimal.
\<close>

type_synonym hasher = "string \<Rightarrow> 64 word"

definition digit_char :: "nat \<Rightarrow> char" where
  "digit_char d = ''0123456789'' ! d"

fun to_string :: "nat \<Rightarrow> string" where
  "to_string n = (if n < 10 then [digit_char n] else to_string (n div 10) @ [digit_char (n mod 10)])"

declare to_string.simps [simp del]

definition simple_hash :: "hasher \<Rightarrow> string \<Rightarrow> string" where
  "simple_hash hasher data = to_string (unat (hasher data))"

definition combine_hashes :: "hasher \<Rightarrow> string \<Rightarrow> string \<Rightarrow> string" where
  "combine_hashes hasher left_hash right_hash = to_string (unat (hasher (left_hash @ right_hash)))"

section \<open>Building the tree\<close>

text \<open>
  Step 1 of \<^verbatim>\<open>build_merkle_tree\<close>:
  \<^verbatim>\<open>while ((data_blocks.size() & (data_blocks.size() - 1)) != 0) data_blocks.push_back("_");\<close>
  The size is a \<^verbatim>\<open>size_t\<close>: at size 0 the subtraction wraps to the largest value.
\<close>

definition size_pred :: "nat \<Rightarrow> nat" where
  "size_pred n = (if n = 0 then 2 ^ 64 - 1 else n - 1)"

function pad_blocks :: "string list \<Rightarrow> string list" where
  "pad_blocks data_blocks =
     (if length data_blocks AND size_pred (length data_blocks) \<noteq> 0
      then pad_blocks (data_blocks @ [''_''])
      else data_blocks)"
  by pat_completeness auto
termination
proof (relation "measure (\<lambda>xs. (LEAST p. length xs \<le> p \<and> (\<exists>k. p = 2 ^ k)) - length xs)")
  show "wf (measure (\<lambda>xs. (LEAST p. length xs \<le> p \<and> (\<exists>k. p = (2::nat) ^ k)) - length xs))"
    by simp
next
  fix data_blocks :: "string list"
  define n where "n = length data_blocks"
  define L where "L m = (LEAST p. m \<le> p \<and> (\<exists>k. p = (2::nat) ^ k))" for m :: nat
  assume run: "length data_blocks AND size_pred (length data_blocks) \<noteq> 0"
  have n0: "n \<noteq> 0" using run by (auto simp: n_def)
  have notpow: "n \<noteq> 2 ^ k" for k
  proof
    assume nk: "n = 2 ^ k"
    have "(2::nat) ^ k AND mask k = take_bit k (2 ^ k)" by (simp add: take_bit_eq_mask)
    then have "(2::nat) ^ k AND (2 ^ k - 1) = 0" by (simp add: mask_eq_exp_minus_1)
    then have "n AND (n - 1) = 0" using nk by simp
    moreover have "size_pred n = n - 1" using n0 by (simp add: size_pred_def)
    ultimately show False using run by (simp add: n_def)
  qed
  have ex: "m \<le> 2 ^ m \<and> (\<exists>k. (2::nat) ^ m = 2 ^ k)" for m :: nat
    using less_exp [of m] by (auto simp: less_imp_le)
  have Ln: "n \<le> L n \<and> (\<exists>k. L n = 2 ^ k)"
    unfolding L_def by (rule LeastI [of "\<lambda>p. n \<le> p \<and> (\<exists>k. p = 2 ^ k)", OF ex])
  then have "L n \<noteq> n" using notpow by metis
  with Ln have lt: "n < L n" by simp
  then have "Suc n \<le> L n \<and> (\<exists>k. L n = 2 ^ k)" using Ln by simp
  then have "L (Suc n) \<le> L n"
    unfolding L_def by (rule Least_le)
  with lt have "L (Suc n) - Suc n < L n - n" by simp
  then show "(data_blocks @ [''_''], data_blocks) \<in>
      measure (\<lambda>xs. (LEAST p. length xs \<le> p \<and> (\<exists>k. p = (2::nat) ^ k)) - length xs)"
    by (simp add: n_def L_def)
qed

declare pad_blocks.simps [simp del]

text \<open>
  Step 2, the leaves: \<^verbatim>\<open>for (i = 0; i < data_blocks.size(); i++)
  nodes.push_back(new MerkleNode(simple_hash(data_blocks[i])));\<close>
  The state is the store and the vector \<^verbatim>\<open>nodes\<close>. The store has no bound: running out of
  memory is not modelled, nor is the overflow of the \<^verbatim>\<open>int\<close> counter on a vector of more
  than \<open>2 ^ 31 - 1\<close> blocks.
\<close>

fun make_leaves :: "hasher \<Rightarrow> string list \<Rightarrow> heap \<times> addr list \<Rightarrow> heap \<times> addr list" where
  "make_leaves hasher [] (h, nodes) = (h, nodes)"
| "make_leaves hasher (b # bs) (h, nodes) =
     (let (h', a) = new_node (simple_hash hasher b) h
      in make_leaves hasher bs (h', nodes @ [a]))"

text \<open>
  The reduction loop \<^verbatim>\<open>while (nodes.size() > 1)\<close>: the two front nodes get a new parent,
  are erased from the front, and the parent is pushed at the back. The two reads
  \<^verbatim>\<open>nodes[0]\<close> and \<^verbatim>\<open>nodes[1]\<close> are guarded by the loop condition, and every pointer in
  \<^verbatim>\<open>nodes\<close> comes from \<^verbatim>\<open>new\<close>.
\<close>

function reduce_nodes :: "hasher \<Rightarrow> heap \<Rightarrow> addr list \<Rightarrow> heap \<times> addr list" where
  "reduce_nodes hasher h nodes =
     (if length nodes > 1 then
        let lft = nodes ! 0;
            rgt = nodes ! 1;
            parent_hash = combine_hashes hasher (hash (h ! lft)) (hash (h ! rgt));
            (h1, par) = new_node parent_hash h;
            h2 = h1[par := (h1 ! par)\<lparr>left := Some lft\<rparr>];
            h3 = h2[par := (h2 ! par)\<lparr>right := Some rgt\<rparr>];
            h4 = h3[lft := (h3 ! lft)\<lparr>parent := Some par\<rparr>];
            h5 = h4[rgt := (h4 ! rgt)\<lparr>parent := Some par\<rparr>]
        in reduce_nodes hasher h5 (tl (tl nodes) @ [par])
      else (h, nodes))"
  by pat_completeness auto
termination
  by (relation "measure (\<lambda>(hasher, h, nodes). length nodes)") auto

declare reduce_nodes.simps [simp del]

text \<open>
  \<^verbatim>\<open>build_merkle_tree\<close> ends with \<^verbatim>\<open>return nodes[0];\<close>, which nothing guards: on an empty
  vector the read is out of range. The result is the store with the pointer to the root.
\<close>

definition build_merkle_tree :: "hasher \<Rightarrow> string list \<Rightarrow> error + (heap \<times> ptr)" where
  "build_merkle_tree hasher data_blocks =
     (let blocks = pad_blocks data_blocks;
          (h, nodes) = make_leaves hasher blocks ([], []);
          (h', nodes') = reduce_nodes hasher h nodes
      in if nodes' = [] then Inl VectorOutOfRange else Inr (h', Some (nodes' ! 0)))"

section \<open>Generating a proof\<close>

text \<open>
  \<^verbatim>\<open>generate_merkle_proof\<close> walks the \<^verbatim>\<open>parent\<close> pointers from the leaf and pushes the hash
  of the sibling at each step. In an arbitrary store the walk need not end, so the loop is
  a partial function: \<open>None\<close> is a walk that never returns. The argument \<^verbatim>\<open>root\<close> is not
  used by the source either.
\<close>

partial_function (option) proof_loop :: "heap \<Rightarrow> ptr \<Rightarrow> string list \<Rightarrow> (error + string list) option" where
  "proof_loop h newNode prf =
     (case deref h newNode of
        Inl e \<Rightarrow> Some (Inl e)
      | Inr nd \<Rightarrow>
          (case parent nd of
             None \<Rightarrow> Some (Inr prf)
           | Some p \<Rightarrow>
               (case deref h (Some p) of
                  Inl e \<Rightarrow> Some (Inl e)
                | Inr pn \<Rightarrow>
                    (case deref h (if left pn = newNode then right pn else left pn) of
                       Inl e \<Rightarrow> Some (Inl e)
                     | Inr sibling \<Rightarrow> proof_loop h (Some p) (prf @ [hash sibling])))))"

definition generate_merkle_proof :: "heap \<Rightarrow> ptr \<Rightarrow> ptr \<Rightarrow> (error + string list) option" where
  "generate_merkle_proof h root leaf = proof_loop h leaf []"

section \<open>Verifying a proof\<close>

text \<open>
  The body of the range-for loop of \<^verbatim>\<open>verify\<close>. \<^verbatim>\<open>operator<\<close> on \<^verbatim>\<open>std::string\<close> is the
  lexicographic order on bytes, which is the order of \<^typ>\<open>string\<close> here.
\<close>

definition verify_step :: "hasher \<Rightarrow> string \<Rightarrow> string \<Rightarrow> string" where
  "verify_step hasher current_hash sibling_hash =
     (if current_hash < sibling_hash
      then combine_hashes hasher current_hash sibling_hash
      else combine_hashes hasher sibling_hash current_hash)"

fun verify_loop :: "hasher \<Rightarrow> string \<Rightarrow> string list \<Rightarrow> string" where
  "verify_loop hasher current_hash [] = current_hash"
| "verify_loop hasher current_hash (sibling_hash # rest) =
     verify_loop hasher (verify_step hasher current_hash sibling_hash) rest"

definition verify :: "hasher \<Rightarrow> heap \<Rightarrow> ptr \<Rightarrow> ptr \<Rightarrow> string list \<Rightarrow> error + bool" where
  "verify hasher h root leaf merkle_proof =
     (case deref h leaf of
        Inl e \<Rightarrow> Inl e
      | Inr lf \<Rightarrow>
          (let current_hash = verify_loop hasher (hash lf) merkle_proof
           in case deref h root of
                Inl e \<Rightarrow> Inl e
              | Inr rt \<Rightarrow> Inr (if current_hash \<noteq> hash rt then False else True)))"

section \<open>The description of \<open>verify\<close>\<close>

text \<open>
  The specification describes \<open>verify\<close> in its own words: start from the leaf's hash; for
  each proof entry in order, combine the current hash with the entry, the lexicographically
  smaller string as the left argument of \<open>combine_hashes\<close> and the larger as the right one;
  accept exactly when the final hash is the root's. These two definitions follow that
  description, not the source; C5 compares them with \<open>verify\<close>.
\<close>

definition spec_combine :: "hasher \<Rightarrow> string \<Rightarrow> string \<Rightarrow> string" where
  "spec_combine hasher current entry = combine_hashes hasher (min current entry) (max current entry)"

definition spec_verify :: "hasher \<Rightarrow> string \<Rightarrow> string \<Rightarrow> string list \<Rightarrow> bool" where
  "spec_verify hasher root_hash leaf_hash prf \<longleftrightarrow>
     foldl (spec_combine hasher) leaf_hash prf = root_hash"

section \<open>Properties of a store\<close>

text \<open>
  \<open>complete_tree h a k\<close>: the nodes reachable from \<open>a\<close> by child pointers form a complete
  binary tree of height \<open>k\<close>: every node above the last level has two distinct children,
  every node on the last level has none.
\<close>

fun complete_tree :: "heap \<Rightarrow> addr \<Rightarrow> nat \<Rightarrow> bool" where
  "complete_tree h a 0 \<longleftrightarrow> a < length h \<and> left (h ! a) = None \<and> right (h ! a) = None"
| "complete_tree h a (Suc k) \<longleftrightarrow> a < length h \<and>
     (case (left (h ! a), right (h ! a)) of
        (Some l, Some r) \<Rightarrow> l \<noteq> r \<and> complete_tree h l k \<and> complete_tree h r k
      | _ \<Rightarrow> False)"

text \<open>
  \<open>sibling_path h a root sibs\<close>: \<open>sibs\<close> lists, from \<open>a\<close> upwards, the hash of the other child
  of each parent on the way, and the way ends at \<open>root\<close>. The first entry is the hash of the
  sibling of \<open>a\<close> itself, the last one the hash of a child of \<open>root\<close>.
\<close>

fun sibling_path :: "heap \<Rightarrow> addr \<Rightarrow> addr \<Rightarrow> string list \<Rightarrow> bool" where
  "sibling_path h a root [] \<longleftrightarrow> a = root"
| "sibling_path h a root (x # xs) \<longleftrightarrow> a < length h \<and>
     (case parent (h ! a) of
        None \<Rightarrow> False
      | Some q \<Rightarrow> q < length h \<and>
          (case (left (h ! q), right (h ! q)) of
             (Some l, Some r) \<Rightarrow>
               l < length h \<and> r < length h \<and> l \<noteq> r \<and>
               (if l = a then x = hash (h ! r) else r = a \<and> x = hash (h ! l)) \<and>
               sibling_path h q root xs
           | _ \<Rightarrow> False))"

text \<open>
  The store after \<open>t\<close> rounds of the reduction loop started on \<open>n\<close> leaves: the leaves are
  the addresses below \<open>n\<close>, the parent made in round \<open>i\<close> is \<open>n + i\<close> with children \<open>2 * i\<close>
  and \<open>2 * i + 1\<close>, and the nodes below \<open>2 * t\<close> have their parent set.
\<close>

definition tree_shape :: "nat \<Rightarrow> nat \<Rightarrow> heap \<Rightarrow> bool" where
  "tree_shape n t h \<longleftrightarrow>
     length h = n + t \<and>
     (\<forall>a < n + t.
        left (h ! a) = (if a < n then None else Some (2 * (a - n))) \<and>
        right (h ! a) = (if a < n then None else Some (2 * (a - n) + 1)) \<and>
        parent (h ! a) = (if a < 2 * t then Some (n + a div 2) else None))"

definition tree_hashes :: "hasher \<Rightarrow> string list \<Rightarrow> heap \<Rightarrow> bool" where
  "tree_hashes hasher blocks h \<longleftrightarrow>
     (\<forall>a < length h.
        hash (h ! a) =
          (if a < length blocks then simple_hash hasher (blocks ! a)
           else combine_hashes hasher (hash (h ! (2 * (a - length blocks))))
                  (hash (h ! (2 * (a - length blocks) + 1)))))"

text \<open>
  The calls of \<open>combine_hashes\<close> that the loop of \<open>verify\<close> makes, as the list of their
  argument pairs from the leaf upwards. Two recomputations collide where, at the same
  level, they call \<open>combine_hashes\<close> on different argument pairs and get the same digest.
\<close>

definition ordered_pair :: "string \<Rightarrow> string \<Rightarrow> string \<times> string" where
  "ordered_pair current_hash sibling_hash =
     (if current_hash < sibling_hash then (current_hash, sibling_hash)
      else (sibling_hash, current_hash))"

fun combine_calls :: "hasher \<Rightarrow> string \<Rightarrow> string list \<Rightarrow> (string \<times> string) list" where
  "combine_calls hasher current_hash [] = []"
| "combine_calls hasher current_hash (sibling_hash # rest) =
     ordered_pair current_hash sibling_hash #
     combine_calls hasher (verify_step hasher current_hash sibling_hash) rest"

definition collision :: "hasher \<Rightarrow> string \<times> string \<Rightarrow> string \<times> string \<Rightarrow> bool" where
  "collision hasher p q \<longleftrightarrow>
     p \<noteq> q \<and> combine_hashes hasher (fst p) (snd p) = combine_hashes hasher (fst q) (snd q)"

definition collides :: "hasher \<Rightarrow> (string \<times> string) list \<Rightarrow> (string \<times> string) list \<Rightarrow> bool" where
  "collides hasher ps qs \<longleftrightarrow> list_ex (\<lambda>(p, q). collision hasher p q) (zip ps qs)"

section \<open>Hash functions and stores for concrete runs\<close>

text \<open>
  The theorems below hold for every \<open>hasher\<close>. Concrete runs need one. The first is
  \<^verbatim>\<open>std::hash<std::string>\<close> as the GNU C++ library (libstdc++) computes it on a 64-bit
  little-endian target: \<^verbatim>\<open>_Hash_bytes\<close>, a Murmur hash with the seed \<^verbatim>\<open>0xc70f6907\<close>, which
  takes the bytes eight at a time and the rest at the end. The library is no part of the
  repository; the definition follows its \<^verbatim>\<open>hash_bytes.cc\<close>.
\<close>

definition murmur_mul :: "64 word" where
  "murmur_mul = 0xc6a4a7935bd1e995"

definition shift_mix :: "64 word \<Rightarrow> 64 word" where
  "shift_mix v = v XOR drop_bit 47 v"

fun load_bytes :: "string \<Rightarrow> 64 word" where
  "load_bytes [] = 0"
| "load_bytes (c # cs) = of_nat (of_char c) + push_bit 8 (load_bytes cs)"

fun hash_bytes_loop :: "64 word \<Rightarrow> string \<Rightarrow> 64 word" where
  "hash_bytes_loop h (b0 # b1 # b2 # b3 # b4 # b5 # b6 # b7 # rest) =
     hash_bytes_loop
       ((h XOR shift_mix (load_bytes [b0, b1, b2, b3, b4, b5, b6, b7] * murmur_mul) * murmur_mul)
          * murmur_mul) rest"
| "hash_bytes_loop h [] = h"
| "hash_bytes_loop h tail = (h XOR load_bytes tail) * murmur_mul"

definition libstdcxx_hash :: hasher where
  "libstdcxx_hash s =
     (let h = 0xc70f6907 XOR (of_nat (length s) * murmur_mul);
          h = hash_bytes_loop h s;
          h = shift_mix h * murmur_mul
      in shift_mix h)"

text \<open>The second is a polynomial hash (base 31, modulo \<open>2 ^ 64\<close>), with small digests.\<close>

definition poly_hasher :: hasher where
  "poly_hasher s = foldl (\<lambda>acc c. 31 * acc + of_nat (of_char c)) 0 s"

text \<open>
  The stores that \<open>build_merkle_tree\<close> returns on the blocks named by the lemmas
  \<open>build_ab\<close>, \<open>build_abc\<close> (polynomial hash) and \<open>build_std_ab\<close>, \<open>build_std_ba\<close>,
  \<open>build_std_main\<close>, \<open>build_std_12\<close> (library hash).
\<close>

definition heap_ab :: heap where
  "heap_ab =
     [\<lparr>hash = ''97'', left = None, right = None, parent = Some 2\<rparr>,
      \<lparr>hash = ''98'', left = None, right = None, parent = Some 2\<rparr>,
      \<lparr>hash = ''1752765'', left = Some 0, right = Some 1, parent = None\<rparr>]"

definition heap_abc :: heap where
  "heap_abc =
     [\<lparr>hash = ''65'', left = None, right = None, parent = Some 4\<rparr>,
      \<lparr>hash = ''66'', left = None, right = None, parent = Some 4\<rparr>,
      \<lparr>hash = ''67'', left = None, right = None, parent = Some 5\<rparr>,
      \<lparr>hash = ''95'', left = None, right = None, parent = Some 5\<rparr>,
      \<lparr>hash = ''1661375'', left = Some 0, right = Some 1, parent = Some 6\<rparr>,
      \<lparr>hash = ''1663389'', left = Some 2, right = Some 3, parent = Some 6\<rparr>,
      \<lparr>hash = ''4475322332307632065'', left = Some 4, right = Some 5, parent = None\<rparr>]"

definition heap_std_ab :: heap where
  "heap_std_ab =
     [\<lparr>hash = ''4993892634952068459'', left = None, right = None, parent = Some 2\<rparr>,
      \<lparr>hash = ''10838281452030117757'', left = None, right = None, parent = Some 2\<rparr>,
      \<lparr>hash = ''9750540347945182323'', left = Some 0, right = Some 1, parent = None\<rparr>]"

definition heap_std_ba :: heap where
  "heap_std_ba =
     [\<lparr>hash = ''10838281452030117757'', left = None, right = None, parent = Some 2\<rparr>,
      \<lparr>hash = ''4993892634952068459'', left = None, right = None, parent = Some 2\<rparr>,
      \<lparr>hash = ''16523428743858325353'', left = Some 0, right = Some 1, parent = None\<rparr>]"

definition heap_std_main :: heap where
  "heap_std_main =
     [\<lparr>hash = ''14760160873108510938'', left = None, right = None, parent = Some 4\<rparr>,
      \<lparr>hash = ''16290458225805909122'', left = None, right = None, parent = Some 4\<rparr>,
      \<lparr>hash = ''11132123870542630804'', left = None, right = None, parent = Some 5\<rparr>,
      \<lparr>hash = ''6511656420584155004'', left = None, right = None, parent = Some 5\<rparr>,
      \<lparr>hash = ''13824343867282674813'', left = Some 0, right = Some 1, parent = Some 6\<rparr>,
      \<lparr>hash = ''12704162468044174438'', left = Some 2, right = Some 3, parent = Some 6\<rparr>,
      \<lparr>hash = ''8299819043692032520'', left = Some 4, right = Some 5, parent = None\<rparr>]"

definition heap_std_12 :: heap where
  "heap_std_12 =
     [\<lparr>hash = ''12'', left = None, right = None, parent = Some 4\<rparr>,
      \<lparr>hash = ''121'', left = None, right = None, parent = Some 4\<rparr>,
      \<lparr>hash = ''21'', left = None, right = None, parent = Some 5\<rparr>,
      \<lparr>hash = ''10838281452030117757'', left = None, right = None, parent = Some 5\<rparr>,
      \<lparr>hash = ''4766130330430469413'', left = Some 0, right = Some 1, parent = Some 6\<rparr>,
      \<lparr>hash = ''6298054015338809633'', left = Some 2, right = Some 3, parent = Some 6\<rparr>,
      \<lparr>hash = ''3449215012450058933'', left = Some 4, right = Some 5, parent = None\<rparr>]"

section \<open>Evaluation\<close>

lemmas build_eval = build_merkle_tree_def reduce_nodes.simps new_node_def

lemmas poly_eval =
  simple_hash_def combine_hashes_def poly_hasher_def to_string.simps digit_char_def

lemmas std_eval =
  simple_hash_def combine_hashes_def libstdcxx_hash_def murmur_mul_def shift_mix_def
  to_string.simps digit_char_def

section \<open>Padding\<close>

text \<open>The loop test \<^verbatim>\<open>n & (n - 1)\<close> is zero exactly at 0 and at the powers of two.\<close>

lemma and_pred_zero_pow2: "n \<noteq> 0 \<Longrightarrow> (n::nat) AND (n - 1) = 0 \<Longrightarrow> \<exists>k. n = 2 ^ k"
proof (induction n rule: less_induct)
  case (less n)
  show ?case
  proof (cases "even n")
    case True
    then obtain m where m: "n = 2 * m" by (auto elim: evenE)
    with less.prems have m0: "m \<noteq> 0" by simp
    then have pred: "n - 1 = 2 * (m - 1) + 1" using m by simp
    have "n AND (n - 1) = 2 * (m AND (m - 1))"
      unfolding pred unfolding m by (subst and_rec) simp
    with less.prems have "m AND (m - 1) = 0" by simp
    moreover have "m < n" using m m0 by simp
    ultimately obtain k where "m = 2 ^ k" using less.IH m0 by blast
    then have "n = 2 ^ Suc k" using m by simp
    then show ?thesis by blast
  next
    case False
    then obtain m where m: "n = 2 * m + 1" by (auto elim: oddE)
    have "n AND (n - 1) = 2 * m"
      unfolding m by (subst and_rec) simp
    with less.prems have "m = 0" by simp
    then have "n = 2 ^ 0" using m by simp
    then show ?thesis by blast
  qed
qed

lemma pow2_and_pred: "(2::nat) ^ k AND (2 ^ k - 1) = 0"
proof -
  have "(2::nat) ^ k AND mask k = take_bit k (2 ^ k)" by (simp add: take_bit_eq_mask)
  then show ?thesis by (simp add: mask_eq_exp_minus_1)
qed

lemma pad_cond_iff:
  "(n AND size_pred n \<noteq> 0) \<longleftrightarrow> (n \<noteq> 0 \<and> (\<forall>k. n \<noteq> 2 ^ k))"
proof (cases "n = 0")
  case True
  then show ?thesis by simp
next
  case False
  then have sp: "size_pred n = n - 1" by (simp add: size_pred_def)
  show ?thesis
  proof
    assume "n AND size_pred n \<noteq> 0"
    then show "n \<noteq> 0 \<and> (\<forall>k. n \<noteq> 2 ^ k)"
      using False sp pow2_and_pred by auto
  next
    assume "n \<noteq> 0 \<and> (\<forall>k. n \<noteq> 2 ^ k)"
    then show "n AND size_pred n \<noteq> 0"
      using and_pred_zero_pow2 [of n] sp by auto
  qed
qed

lemma pad_blocks_eq:
  "length xs \<le> 2 ^ k \<Longrightarrow> 2 ^ k < 2 * length xs \<Longrightarrow>
   pad_blocks xs = xs @ replicate (2 ^ k - length xs) ''_''"
proof (induction xs rule: pad_blocks.induct)
  case (1 xs)
  show ?case
  proof (cases "length xs AND size_pred (length xs) \<noteq> 0")
    case True
    then have "length xs \<noteq> 2 ^ k" using pad_cond_iff [of "length xs"] by blast
    with "1.prems" have lt: "length xs < 2 ^ k" by simp
    then have "pad_blocks (xs @ [''_'']) = (xs @ [''_'']) @ replicate (2 ^ k - length (xs @ [''_''])) ''_''"
      using "1.prems" by (intro "1.IH" [OF True]) simp_all
    also have "\<dots> = xs @ replicate (Suc (2 ^ k - Suc (length xs))) ''_''"
      by (simp add: replicate_app_Cons_same)
    also have "Suc (2 ^ k - Suc (length xs)) = 2 ^ k - length xs"
      using lt by simp
    finally show ?thesis using True by (subst pad_blocks.simps) simp
  next
    case False
    then have "length xs = 0 \<or> (\<exists>j. length xs = 2 ^ j)"
      using pad_cond_iff [of "length xs"] by blast
    with "1.prems" obtain j where j: "length xs = 2 ^ j" by auto
    with "1.prems" have "(2::nat) ^ j \<le> 2 ^ k" "(2::nat) ^ k < 2 ^ Suc j" by simp_all
    then have "j \<le> k" "k < Suc j" by (simp_all only: power_increasing_iff power_strict_increasing_iff one_less_numeral_iff semiring_norm)
    then have "j = k" by simp
    with j False show ?thesis by (subst pad_blocks.simps) simp
  qed
qed

lemma pad_blocks_least_power:
  assumes "data_blocks \<noteq> []"
  shows "\<exists>k. length data_blocks \<le> 2 ^ k \<and> (\<forall>j. length data_blocks \<le> 2 ^ j \<longrightarrow> k \<le> j) \<and>
             pad_blocks data_blocks = data_blocks @ replicate (2 ^ k - length data_blocks) ''_'' \<and>
             (\<forall>m. length data_blocks = 2 ^ m \<longrightarrow> pad_blocks data_blocks = data_blocks)"
proof -
  define n where "n = length data_blocks"
  define k where "k = (LEAST k. n \<le> 2 ^ k)"
  have n0: "0 < n" using assms by (simp add: n_def)
  have "n \<le> 2 ^ n" using less_exp [of n] by simp
  then have le: "n \<le> 2 ^ k" unfolding k_def by (rule LeastI)
  have least: "k \<le> j" if "n \<le> 2 ^ j" for j
    unfolding k_def using that by (rule Least_le)
  have up: "2 ^ k < 2 * n"
  proof (cases k)
    case 0
    then show ?thesis using n0 by simp
  next
    case (Suc k')
    have "\<not> n \<le> 2 ^ k'" using least [of k'] Suc by auto
    then show ?thesis using Suc by simp
  qed
  have pad: "pad_blocks data_blocks = data_blocks @ replicate (2 ^ k - n) ''_''"
    unfolding n_def by (rule pad_blocks_eq) (use le up in \<open>simp_all add: n_def\<close>)
  have same: "pad_blocks data_blocks = data_blocks" if "n = 2 ^ m" for m
  proof -
    have "k \<le> m" using least [of m] that by simp
    then have "(2::nat) ^ k \<le> 2 ^ m" by simp
    with le that have "2 ^ k = n" by simp
    with pad show ?thesis by simp
  qed
  show ?thesis
    using le least pad same unfolding n_def by blast
qed

text \<open>
  C3. For a list of \<open>n \<ge> 1\<close> blocks the padding loop appends the block \<^verbatim>\<open>"_"\<close> until the
  count is \<open>2 ^ k\<close>, the smallest power of two that is at least \<open>n\<close>; when \<open>n\<close> is a power
  of two already, nothing is appended.
\<close>

theorem padding_smallest_power_of_two:
  assumes "data_blocks \<noteq> []"
  shows "\<exists>k. length data_blocks \<le> 2 ^ k \<and> (\<forall>j. length data_blocks \<le> 2 ^ j \<longrightarrow> k \<le> j) \<and>
             pad_blocks data_blocks = data_blocks @ replicate (2 ^ k - length data_blocks) ''_'' \<and>
             (\<forall>m. length data_blocks = 2 ^ m \<longrightarrow> pad_blocks data_blocks = data_blocks)"
  using assms by (rule pad_blocks_least_power)

theorem padding_smallest_power_of_two_witness:
  "[''A'', ''B'', ''C''] \<noteq> [] \<and> pad_blocks [''A'', ''B'', ''C''] = [''A'', ''B'', ''C'', ''_'']"
proof -
  obtain k where le: "length [''A'', ''B'', ''C''] \<le> (2::nat) ^ k"
    and least: "\<forall>j. length [''A'', ''B'', ''C''] \<le> (2::nat) ^ j \<longrightarrow> k \<le> j"
    and pad: "pad_blocks [''A'', ''B'', ''C''] = [''A'', ''B'', ''C''] @ replicate (2 ^ k - length [''A'', ''B'', ''C'']) ''_''"
    using padding_smallest_power_of_two [of "[''A'', ''B'', ''C'']"] by auto
  have "k \<le> 2" using least [rule_format, of 2] by simp
  moreover have "k \<noteq> 0" using le by (intro notI) simp
  moreover have "k \<noteq> 1" using le by (intro notI) simp
  ultimately have "k = 2" by simp
  with pad show ?thesis by simp
qed

lemma pad_blocks_length:
  assumes "data_blocks \<noteq> []"
  shows "\<exists>k. length (pad_blocks data_blocks) = 2 ^ k"
proof -
  obtain k where "length data_blocks \<le> 2 ^ k"
     and "pad_blocks data_blocks = data_blocks @ replicate (2 ^ k - length data_blocks) ''_''"
    using pad_blocks_least_power [OF assms] by blast
  then have "length (pad_blocks data_blocks) = 2 ^ k" by simp
  then show ?thesis ..
qed

lemma pad_blocks_single: "pad_blocks [x] = [x]"
  using pad_blocks_eq [of "[x]" 0] by simp

lemma pad_two: "pad_blocks [x, y] = [x, y]"
  using pad_blocks_eq [of "[x, y]" 1] by simp

lemma pad_four: "pad_blocks [w, x, y, z] = [w, x, y, z]"
  using pad_blocks_eq [of "[w, x, y, z]" 2] by simp

lemma pad_abc: "pad_blocks [''A'', ''B'', ''C''] = [''A'', ''B'', ''C'', ''_'']"
  using pad_blocks_eq [of "[''A'', ''B'', ''C'']" 2] by simp

section \<open>Zero blocks and one block\<close>

text \<open>
  C2. On zero blocks the padding loop does not run (\<open>0 AND (0 - 1) = 0\<close>), no leaf is made,
  the reduction loop does not run, and \<^verbatim>\<open>return nodes[0]\<close> reads an empty vector. No
  \<^verbatim>\<open>EmptyInputError\<close> exists in the program.
\<close>

theorem build_merkle_tree_zero_blocks:
  "build_merkle_tree hasher [] = Inl VectorOutOfRange"
  by (simp add: build_merkle_tree_def pad_blocks.simps reduce_nodes.simps)

text \<open>
  C6. For one block \<open>x\<close> nothing is padded, the tree is the single leaf with the hash of
  \<open>x\<close>, which is the root; the proof generated for that leaf is empty, and \<open>verify\<close> of the
  root, the leaf and the empty proof returns true.
\<close>

theorem single_block_tree:
  "pad_blocks [x] = [x] \<and>
   build_merkle_tree hasher [x] =
     Inr ([\<lparr>hash = simple_hash hasher x, left = None, right = None, parent = None\<rparr>], Some 0) \<and>
   generate_merkle_proof
     [\<lparr>hash = simple_hash hasher x, left = None, right = None, parent = None\<rparr>] (Some 0) (Some 0) =
     Some (Inr []) \<and>
   verify hasher
     [\<lparr>hash = simple_hash hasher x, left = None, right = None, parent = None\<rparr>] (Some 0) (Some 0) [] =
     Inr True"
proof -
  have "build_merkle_tree hasher [x] =
     Inr ([\<lparr>hash = simple_hash hasher x, left = None, right = None, parent = None\<rparr>], Some 0)"
    by (simp add: build_merkle_tree_def pad_blocks_single reduce_nodes.simps new_node_def)
  moreover have "generate_merkle_proof
     [\<lparr>hash = simple_hash hasher x, left = None, right = None, parent = None\<rparr>] (Some 0) (Some 0) =
     Some (Inr [])"
    by (simp add: generate_merkle_proof_def proof_loop.simps)
  moreover have "verify hasher
     [\<lparr>hash = simple_hash hasher x, left = None, right = None, parent = None\<rparr>] (Some 0) (Some 0) [] =
     Inr True"
    by (simp add: verify_def)
  ultimately show ?thesis by (simp add: pad_blocks_single)
qed

theorem single_block_tree_witness:
  "build_merkle_tree poly_hasher [''x''] =
     Inr ([\<lparr>hash = ''120'', left = None, right = None, parent = None\<rparr>], Some 0) \<and>
   generate_merkle_proof
     [\<lparr>hash = ''120'', left = None, right = None, parent = None\<rparr>] (Some 0) (Some 0) = Some (Inr []) \<and>
   verify poly_hasher
     [\<lparr>hash = ''120'', left = None, right = None, parent = None\<rparr>] (Some 0) (Some 0) [] = Inr True"
proof -
  have "simple_hash poly_hasher ''x'' = ''120''"
    by (simp add: simple_hash_def poly_hasher_def to_string.simps digit_char_def)
  then show ?thesis
    using single_block_tree [of "''x''" poly_hasher] by simp
qed

section \<open>The reduction loop\<close>

text \<open>
  The leaves are made in order at the addresses \<open>0, \<dots>, n - 1\<close>. In round \<open>t\<close> the vector
  \<^verbatim>\<open>nodes\<close> holds the addresses \<open>2 * t, \<dots>, n + t - 1\<close>, so that the loop joins \<open>2 * t\<close> and
  \<open>2 * t + 1\<close> under the new node \<open>n + t\<close>; it stops after \<open>n - 1\<close> rounds with the root
  \<open>2 * n - 2\<close>.
\<close>

lemma make_leaves_eq:
  "make_leaves hasher bs (h, nodes) =
     (h @ map (\<lambda>b. \<lparr>hash = simple_hash hasher b, left = None, right = None, parent = None\<rparr>) bs,
      nodes @ [length h ..< length h + length bs])"
proof (induction bs arbitrary: h nodes)
  case Nil
  then show ?case by simp
next
  case (Cons b bs)
  have "[length h..<length h + Suc (length bs)] = length h # [Suc (length h)..<Suc (length h) + length bs]"
    by (simp add: upt_rec)
  then show ?case by (simp add: Cons.IH new_node_def)
qed

lemma reduce_nodes_stop: "length nodes \<le> 1 \<Longrightarrow> reduce_nodes hasher h nodes = (h, nodes)"
  by (subst reduce_nodes.simps) simp

lemma reduce_nodes_step:
  assumes "1 < length nodes" and "l = nodes ! 0" and "r = nodes ! 1"
    and "l < length h" and "r < length h"
  shows "reduce_nodes hasher h nodes =
     reduce_nodes hasher
       ((h @ [\<lparr>hash = combine_hashes hasher (hash (h ! l)) (hash (h ! r)),
               left = Some l, right = Some r, parent = None\<rparr>])
          [l := (h ! l)\<lparr>parent := Some (length h)\<rparr>, r := (h ! r)\<lparr>parent := Some (length h)\<rparr>])
       (tl (tl nodes) @ [length h])"
proof (cases "l = r")
  case True
  show ?thesis
    using assms True by (subst reduce_nodes.simps) (simp add: Let_def new_node_def nth_append list_update_append)
next
  case False
  show ?thesis
    using assms False by (subst reduce_nodes.simps) (simp add: Let_def new_node_def nth_append list_update_append)
qed


lemma join_old:
  assumes "a < length h" and "l < length h" and "r < length h"
  shows "hash (((h @ [nd])[l := (h ! l)\<lparr>parent := Some p\<rparr>, r := (h ! r)\<lparr>parent := Some p\<rparr>]) ! a) = hash (h ! a)"
    and "left (((h @ [nd])[l := (h ! l)\<lparr>parent := Some p\<rparr>, r := (h ! r)\<lparr>parent := Some p\<rparr>]) ! a) = left (h ! a)"
    and "right (((h @ [nd])[l := (h ! l)\<lparr>parent := Some p\<rparr>, r := (h ! r)\<lparr>parent := Some p\<rparr>]) ! a) = right (h ! a)"
    and "parent (((h @ [nd])[l := (h ! l)\<lparr>parent := Some p\<rparr>, r := (h ! r)\<lparr>parent := Some p\<rparr>]) ! a) =
           (if a = l \<or> a = r then Some p else parent (h ! a))"
  using assms by (auto simp: nth_list_update nth_append)

lemma join_new:
  assumes "l < length h" and "r < length h"
  shows "((h @ [nd])[l := (h ! l)\<lparr>parent := Some p\<rparr>, r := (h ! r)\<lparr>parent := Some p\<rparr>]) ! length h = nd"
  using assms by (simp add: nth_list_update nth_append)

lemma tree_shape_step:
  assumes sh: "tree_shape n t h" and t: "Suc t < n"
    and h': "h' = (h @ [\<lparr>hash = ph, left = Some (2 * t), right = Some (2 * t + 1), parent = None\<rparr>])
        [2 * t := (h ! (2 * t))\<lparr>parent := Some (length h)\<rparr>,
         2 * t + 1 := (h ! (2 * t + 1))\<lparr>parent := Some (length h)\<rparr>]"
  shows "tree_shape n (Suc t) h'"
proof -
  have len: "length h = n + t" using sh by (simp add: tree_shape_def)
  have old: "left (h ! a) = (if a < n then None else Some (2 * (a - n))) \<and>
        right (h ! a) = (if a < n then None else Some (2 * (a - n) + 1)) \<and>
        parent (h ! a) = (if a < 2 * t then Some (n + a div 2) else None)" if "a < n + t" for a
    using sh that by (simp add: tree_shape_def)
  have l: "2 * t < length h" and r: "2 * t + 1 < length h" using t len by simp_all
  have new: "h' ! (n + t) = \<lparr>hash = ph, left = Some (2 * t), right = Some (2 * t + 1), parent = None\<rparr>"
    unfolding h' len [symmetric] by (rule join_new [OF l r])
  have keep: "left (h' ! a) = left (h ! a)" "right (h' ! a) = right (h ! a)"
     "parent (h' ! a) = (if a = 2 * t \<or> a = 2 * t + 1 then Some (n + t) else parent (h ! a))"
    if "a < n + t" for a
    unfolding h' len [symmetric] using that l r by (simp_all only: join_old len)
  have "left (h' ! a) = (if a < n then None else Some (2 * (a - n))) \<and>
        right (h' ! a) = (if a < n then None else Some (2 * (a - n) + 1)) \<and>
        parent (h' ! a) = (if a < 2 * Suc t then Some (n + a div 2) else None)" if a: "a < n + Suc t" for a
  proof (cases "a = n + t")
    case True
    then show ?thesis using new t by simp
  next
    case False
    with a have a': "a < n + t" by simp
    have "a = 2 * t \<or> a = 2 * t + 1 \<Longrightarrow> a div 2 = t" by auto
    moreover have "a < 2 * Suc t \<longleftrightarrow> a < 2 * t \<or> a = 2 * t \<or> a = 2 * t + 1" by auto
    ultimately show ?thesis
      using old [OF a'] by (auto simp: keep [OF a'])
  qed
  moreover have "length h' = n + Suc t" using len by (simp add: h')
  ultimately show ?thesis by (simp add: tree_shape_def)
qed

lemma tree_hashes_step:
  assumes hs: "tree_hashes hasher bs h" and len: "length h = length bs + t" and t: "Suc t < length bs"
    and h': "h' = (h @ [\<lparr>hash = combine_hashes hasher (hash (h ! (2 * t))) (hash (h ! (2 * t + 1))),
             left = Some (2 * t), right = Some (2 * t + 1), parent = None\<rparr>])
        [2 * t := (h ! (2 * t))\<lparr>parent := Some (length h)\<rparr>,
         2 * t + 1 := (h ! (2 * t + 1))\<lparr>parent := Some (length h)\<rparr>]"
  shows "tree_hashes hasher bs h'"
proof -
  have l: "2 * t < length h" and r: "2 * t + 1 < length h" using t len by simp_all
  have new: "hash (h' ! length h) = combine_hashes hasher (hash (h ! (2 * t))) (hash (h ! (2 * t + 1)))"
    unfolding h' by (simp only: join_new [OF l r] MerkleNode.simps)
  have keep: "hash (h' ! a) = hash (h ! a)" if "a < length h" for a
    unfolding h' using that l r by (simp only: join_old)
  have old: "hash (h ! a) =
          (if a < length bs then simple_hash hasher (bs ! a)
           else combine_hashes hasher (hash (h ! (2 * (a - length bs))))
                  (hash (h ! (2 * (a - length bs) + 1))))" if "a < length h" for a
    using hs that by (simp add: tree_hashes_def)
  have "hash (h' ! a) =
          (if a < length bs then simple_hash hasher (bs ! a)
           else combine_hashes hasher (hash (h' ! (2 * (a - length bs))))
                  (hash (h' ! (2 * (a - length bs) + 1))))" if a: "a < Suc (length h)" for a
  proof (cases "a = length h")
    case True
    moreover have "a - length bs = t" "\<not> a < length bs" using True len by simp_all
    ultimately show ?thesis using new keep [OF l] keep [OF r] by simp
  next
    case False
    with a have a': "a < length h" by simp
    show ?thesis
    proof (cases "a < length bs")
      case True
      then show ?thesis using old [OF a'] keep [OF a'] by simp
    next
      case False
      then have c1: "2 * (a - length bs) < length h" and c2: "2 * (a - length bs) + 1 < length h"
        using a' len t by simp_all
      show ?thesis
        using old [OF a'] keep [OF a'] keep [OF c1] keep [OF c2] False by simp
    qed
  qed
  moreover have "length h' = Suc (length h)" by (simp add: h')
  ultimately show ?thesis by (simp add: tree_hashes_def)
qed


lemma reduce_nodes_shape:
  assumes "t < n" and "tree_shape n t h" and "tree_hashes hasher bs h" and "length bs = n"
  shows "\<exists>h'. reduce_nodes hasher h [2 * t..<n + t] = (h', [2 * n - 2]) \<and>
              tree_shape n (n - 1) h' \<and> tree_hashes hasher bs h'"
  using assms
proof (induction "n - Suc t" arbitrary: t h)
  case 0
  then have t: "t = n - 1" and n: "0 < n" by simp_all
  then have "2 * t = 2 * n - 2" "n + t = Suc (2 * n - 2)" by simp_all
  moreover have "[2 * n - 2..<Suc (2 * n - 2)] = [2 * n - 2]" by simp
  ultimately have "[2 * t..<n + t] = [2 * n - 2]" by (simp only:)
  then show ?case using 0 t by (simp add: reduce_nodes_stop)
next
  case (Suc d)
  then have t: "Suc t < n" by simp
  have len: "length h = n + t" using Suc.prems by (simp add: tree_shape_def)
  define h' where "h' = (h @ [\<lparr>hash = combine_hashes hasher (hash (h ! (2 * t))) (hash (h ! (2 * t + 1))),
             left = Some (2 * t), right = Some (2 * t + 1), parent = None\<rparr>])
        [2 * t := (h ! (2 * t))\<lparr>parent := Some (length h)\<rparr>,
         2 * t + 1 := (h ! (2 * t + 1))\<lparr>parent := Some (length h)\<rparr>]"
  have q: "tl (tl [2 * t..<n + t]) @ [length h] = [2 * Suc t..<n + Suc t]"
    using t len by (simp add: upt_rec [of "2 * t"] upt_rec [of "Suc (2 * t)"])
  have "reduce_nodes hasher h [2 * t..<n + t] = reduce_nodes hasher h' (tl (tl [2 * t..<n + t]) @ [length h])"
    unfolding h'_def using t len by (intro reduce_nodes_step) simp_all
  then have step: "reduce_nodes hasher h [2 * t..<n + t] = reduce_nodes hasher h' [2 * Suc t..<n + Suc t]"
    by (simp only: q)
  have "tree_shape n (Suc t) h'"
    using Suc.prems(2) t h'_def by (rule tree_shape_step)
  moreover have "tree_hashes hasher bs h'"
    using Suc.prems(3) _ _ h'_def by (rule tree_hashes_step) (use len t Suc.prems(4) in simp_all)
  moreover have "d = n - Suc (Suc t)" using Suc.hyps(2) by simp
  ultimately show ?case
    using Suc.hyps(1) [of "Suc t" h'] t Suc.prems(4) step by simp
qed

lemma build_merkle_tree_shape:
  assumes "data_blocks \<noteq> []" and n: "n = length (pad_blocks data_blocks)"
  shows "\<exists>h. build_merkle_tree hasher data_blocks = Inr (h, Some (2 * n - 2)) \<and>
             tree_shape n (n - 1) h \<and> tree_hashes hasher (pad_blocks data_blocks) h"
proof -
  define bs where "bs = pad_blocks data_blocks"
  define h0 where "h0 = map (\<lambda>b. \<lparr>hash = simple_hash hasher b, left = None, right = None, parent = None\<rparr>) bs"
  obtain k where "n = 2 ^ k" using pad_blocks_length [OF assms(1)] n by blast
  then have n0: "0 < n" by simp
  have len: "length bs = n" by (simp add: bs_def n)
  have leaves: "make_leaves hasher bs ([], []) = (h0, [2 * 0..<n + 0])"
    by (simp add: make_leaves_eq h0_def len)
  have "tree_shape n 0 h0" by (simp add: tree_shape_def h0_def len)
  moreover have "tree_hashes hasher bs h0" by (simp add: tree_hashes_def h0_def)
  ultimately obtain h where red: "reduce_nodes hasher h0 [2 * 0..<n + 0] = (h, [2 * n - 2])"
     and sh: "tree_shape n (n - 1) h" and hs: "tree_hashes hasher bs h"
    using reduce_nodes_shape [OF n0 _ _ len] by blast
  have "build_merkle_tree hasher data_blocks = Inr (h, Some (2 * n - 2))"
    unfolding build_merkle_tree_def bs_def [symmetric] by (simp only: Let_def leaves red split) simp
  with sh hs show ?thesis unfolding bs_def by blast
qed

section \<open>Concrete trees\<close>

text \<open>The trees of two and of four blocks, for every hash function.\<close>

lemma two_blocks_tree:
  "build_merkle_tree hasher [b1, b2] =
     Inr ([\<lparr>hash = simple_hash hasher b1, left = None, right = None, parent = Some 2\<rparr>,
           \<lparr>hash = simple_hash hasher b2, left = None, right = None, parent = Some 2\<rparr>,
           \<lparr>hash = combine_hashes hasher (simple_hash hasher b1) (simple_hash hasher b2),
             left = Some 0, right = Some 1, parent = None\<rparr>], Some 2)"
  by (simp add: build_eval pad_two)

lemma four_blocks_tree:
  "build_merkle_tree hasher [b0, b1, b2, b3] =
     Inr ([\<lparr>hash = simple_hash hasher b0, left = None, right = None, parent = Some 4\<rparr>,
           \<lparr>hash = simple_hash hasher b1, left = None, right = None, parent = Some 4\<rparr>,
           \<lparr>hash = simple_hash hasher b2, left = None, right = None, parent = Some 5\<rparr>,
           \<lparr>hash = simple_hash hasher b3, left = None, right = None, parent = Some 5\<rparr>,
           \<lparr>hash = combine_hashes hasher (simple_hash hasher b0) (simple_hash hasher b1),
             left = Some 0, right = Some 1, parent = Some 6\<rparr>,
           \<lparr>hash = combine_hashes hasher (simple_hash hasher b2) (simple_hash hasher b3),
             left = Some 2, right = Some 3, parent = Some 6\<rparr>,
           \<lparr>hash = combine_hashes hasher
                     (combine_hashes hasher (simple_hash hasher b0) (simple_hash hasher b1))
                     (combine_hashes hasher (simple_hash hasher b2) (simple_hash hasher b3)),
             left = Some 4, right = Some 5, parent = None\<rparr>], Some 6)"
proof -
  define d0 d1 d2 d3 where d: "d0 = simple_hash hasher b0" "d1 = simple_hash hasher b1"
    "d2 = simple_hash hasher b2" "d3 = simple_hash hasher b3"
  define h01 h23 where c: "h01 = combine_hashes hasher d0 d1" "h23 = combine_hashes hasher d2 d3"
  have leaves: "make_leaves hasher [b0, b1, b2, b3] ([], []) =
     ([\<lparr>hash = d0, left = None, right = None, parent = None\<rparr>,
       \<lparr>hash = d1, left = None, right = None, parent = None\<rparr>,
       \<lparr>hash = d2, left = None, right = None, parent = None\<rparr>,
       \<lparr>hash = d3, left = None, right = None, parent = None\<rparr>], [0, 1, 2, 3])"
    by (simp add: new_node_def d)
  have "reduce_nodes hasher
     [\<lparr>hash = d0, left = None, right = None, parent = None\<rparr>,
      \<lparr>hash = d1, left = None, right = None, parent = None\<rparr>,
      \<lparr>hash = d2, left = None, right = None, parent = None\<rparr>,
      \<lparr>hash = d3, left = None, right = None, parent = None\<rparr>] [0, 1, 2, 3] =
    reduce_nodes hasher
     [\<lparr>hash = d0, left = None, right = None, parent = Some 4\<rparr>,
      \<lparr>hash = d1, left = None, right = None, parent = Some 4\<rparr>,
      \<lparr>hash = d2, left = None, right = None, parent = None\<rparr>,
      \<lparr>hash = d3, left = None, right = None, parent = None\<rparr>,
      \<lparr>hash = h01, left = Some 0, right = Some 1, parent = None\<rparr>] [2, 3, 4]"
    by (subst reduce_nodes_step [of _ 0 1]) (simp_all add: c eval_nat_numeral)
  also have "\<dots> =
    reduce_nodes hasher
     [\<lparr>hash = d0, left = None, right = None, parent = Some 4\<rparr>,
      \<lparr>hash = d1, left = None, right = None, parent = Some 4\<rparr>,
      \<lparr>hash = d2, left = None, right = None, parent = Some 5\<rparr>,
      \<lparr>hash = d3, left = None, right = None, parent = Some 5\<rparr>,
      \<lparr>hash = h01, left = Some 0, right = Some 1, parent = None\<rparr>,
      \<lparr>hash = h23, left = Some 2, right = Some 3, parent = None\<rparr>] [4, 5]"
    by (subst reduce_nodes_step [of _ 2 3]) (simp_all add: c eval_nat_numeral)
  also have "\<dots> =
    reduce_nodes hasher
     [\<lparr>hash = d0, left = None, right = None, parent = Some 4\<rparr>,
      \<lparr>hash = d1, left = None, right = None, parent = Some 4\<rparr>,
      \<lparr>hash = d2, left = None, right = None, parent = Some 5\<rparr>,
      \<lparr>hash = d3, left = None, right = None, parent = Some 5\<rparr>,
      \<lparr>hash = h01, left = Some 0, right = Some 1, parent = Some 6\<rparr>,
      \<lparr>hash = h23, left = Some 2, right = Some 3, parent = Some 6\<rparr>,
      \<lparr>hash = combine_hashes hasher h01 h23, left = Some 4, right = Some 5, parent = None\<rparr>] [6]"
    by (subst reduce_nodes_step [of _ 4 5]) (simp_all add: eval_nat_numeral)
  finally show ?thesis
    unfolding d c
    by (simp only: build_merkle_tree_def pad_four leaves [unfolded d] Let_def split reduce_nodes_stop) 
       (simp add: reduce_nodes_stop)
qed

text \<open>The trees under the polynomial hash.\<close>

lemma build_ab: "build_merkle_tree poly_hasher [''a'', ''b''] = Inr (heap_ab, Some 2)"
  by (simp add: build_eval pad_two heap_ab_def poly_eval)

lemma combine_abc:
  "combine_hashes poly_hasher ''65'' ''66'' = ''1661375''"
  "combine_hashes poly_hasher ''67'' ''95'' = ''1663389''"
  "combine_hashes poly_hasher ''1661375'' ''1663389'' = ''4475322332307632065''"
  by (simp_all add: poly_eval)

lemma leaves_abc:
  "make_leaves poly_hasher [''A'', ''B'', ''C'', ''_''] ([], []) =
     ([\<lparr>hash = ''65'', left = None, right = None, parent = None\<rparr>,
       \<lparr>hash = ''66'', left = None, right = None, parent = None\<rparr>,
       \<lparr>hash = ''67'', left = None, right = None, parent = None\<rparr>,
       \<lparr>hash = ''95'', left = None, right = None, parent = None\<rparr>], [0, 1, 2, 3])"
  by (simp add: new_node_def poly_eval)

lemma reduce_abc:
  "reduce_nodes poly_hasher
     [\<lparr>hash = ''65'', left = None, right = None, parent = None\<rparr>,
      \<lparr>hash = ''66'', left = None, right = None, parent = None\<rparr>,
      \<lparr>hash = ''67'', left = None, right = None, parent = None\<rparr>,
      \<lparr>hash = ''95'', left = None, right = None, parent = None\<rparr>] [0, 1, 2, 3] = (heap_abc, [6])"
proof -
  have "reduce_nodes poly_hasher
     [\<lparr>hash = ''65'', left = None, right = None, parent = None\<rparr>,
      \<lparr>hash = ''66'', left = None, right = None, parent = None\<rparr>,
      \<lparr>hash = ''67'', left = None, right = None, parent = None\<rparr>,
      \<lparr>hash = ''95'', left = None, right = None, parent = None\<rparr>] [0, 1, 2, 3] =
    reduce_nodes poly_hasher
     [\<lparr>hash = ''65'', left = None, right = None, parent = Some 4\<rparr>,
      \<lparr>hash = ''66'', left = None, right = None, parent = Some 4\<rparr>,
      \<lparr>hash = ''67'', left = None, right = None, parent = None\<rparr>,
      \<lparr>hash = ''95'', left = None, right = None, parent = None\<rparr>,
      \<lparr>hash = ''1661375'', left = Some 0, right = Some 1, parent = None\<rparr>] [2, 3, 4]"
    by (subst reduce_nodes_step [of _ 0 1]) (simp_all add: combine_abc eval_nat_numeral)
  also have "\<dots> =
    reduce_nodes poly_hasher
     [\<lparr>hash = ''65'', left = None, right = None, parent = Some 4\<rparr>,
      \<lparr>hash = ''66'', left = None, right = None, parent = Some 4\<rparr>,
      \<lparr>hash = ''67'', left = None, right = None, parent = Some 5\<rparr>,
      \<lparr>hash = ''95'', left = None, right = None, parent = Some 5\<rparr>,
      \<lparr>hash = ''1661375'', left = Some 0, right = Some 1, parent = None\<rparr>,
      \<lparr>hash = ''1663389'', left = Some 2, right = Some 3, parent = None\<rparr>] [4, 5]"
    by (subst reduce_nodes_step [of _ 2 3]) (simp_all add: combine_abc eval_nat_numeral)
  also have "\<dots> = reduce_nodes poly_hasher heap_abc [6]"
    by (subst reduce_nodes_step [of _ 4 5]) (simp_all add: combine_abc heap_abc_def eval_nat_numeral)
  finally show ?thesis by (simp add: reduce_nodes_stop)
qed

lemma build_abc: "build_merkle_tree poly_hasher [''A'', ''B'', ''C''] = Inr (heap_abc, Some 6)"
  by (simp only: build_merkle_tree_def pad_abc leaves_abc reduce_abc Let_def split) simp

text \<open>The digests of the library hash, and the trees under it.\<close>

lemma std_digests:
  "simple_hash libstdcxx_hash ''a'' = ''4993892634952068459''"
  "simple_hash libstdcxx_hash ''b'' = ''10838281452030117757''"
  "simple_hash libstdcxx_hash [CHR 0x08, CHR 0x77, CHR 0x53, CHR 0x2F, CHR 0x53, CHR 0xA9, CHR 0x6C, CHR 0x5B] = ''12''"
  "simple_hash libstdcxx_hash [CHR 0x1C, CHR 0xAA, CHR 0x92, CHR 0x7F, CHR 0xF3, CHR 0x9B, CHR 0x52, CHR 0x91] = ''121''"
  "simple_hash libstdcxx_hash [CHR 0x7B, CHR 0xA9, CHR 0x43, CHR 0xA3, CHR 0x88, CHR 0x91, CHR 0x2C, CHR 0x67] = ''21''"
  by (simp_all add: std_eval)

lemma std_combines:
  "combine_hashes libstdcxx_hash ''4993892634952068459'' ''10838281452030117757'' = ''9750540347945182323''"
  "combine_hashes libstdcxx_hash ''10838281452030117757'' ''4993892634952068459'' = ''16523428743858325353''"
  "combine_hashes libstdcxx_hash ''10838281452030117757''
     [CHR 0x39, CHR 0x39, CHR 0x39, CHR 0x39, CHR 0x23, CHR 0x39, CHR 0x06, CHR 0xC8, CHR 0x8F, CHR 0x01, CHR 0x52, CHR 0xED] =
     ''16523428743858325353''"
  "combine_hashes libstdcxx_hash ''12'' ''121'' = ''4766130330430469413''"
  "combine_hashes libstdcxx_hash ''121'' ''21'' = ''4766130330430469413''"
  "combine_hashes libstdcxx_hash ''21'' ''10838281452030117757'' = ''6298054015338809633''"
  "combine_hashes libstdcxx_hash ''4766130330430469413'' ''6298054015338809633'' = ''3449215012450058933''"
  "combine_hashes libstdcxx_hash ''0'' ''4766130330430469413'' = ''9243979832715287567''"
  by (simp_all add: std_eval)

lemma main_digests:
  "simple_hash libstdcxx_hash ''Soham is goated'' = ''14760160873108510938''"
  "simple_hash libstdcxx_hash ''Adithya is kinda lame'' = ''16290458225805909122''"
  "simple_hash libstdcxx_hash ''another example data block'' = ''11132123870542630804''"
  "simple_hash libstdcxx_hash ''boom'' = ''6511656420584155004''"
  "combine_hashes libstdcxx_hash ''14760160873108510938'' ''16290458225805909122'' = ''13824343867282674813''"
  "combine_hashes libstdcxx_hash ''11132123870542630804'' ''6511656420584155004'' = ''12704162468044174438''"
  "combine_hashes libstdcxx_hash ''13824343867282674813'' ''12704162468044174438'' = ''8299819043692032520''"
  "combine_hashes libstdcxx_hash ''12704162468044174438'' ''13824343867282674813'' = ''13694746944412811840''"
  by (simp_all add: std_eval)

lemma build_std_ab: "build_merkle_tree libstdcxx_hash [''a'', ''b''] = Inr (heap_std_ab, Some 2)"
  by (simp add: two_blocks_tree std_digests std_combines heap_std_ab_def)

lemma build_std_ba: "build_merkle_tree libstdcxx_hash [''b'', ''a''] = Inr (heap_std_ba, Some 2)"
  by (simp add: two_blocks_tree std_digests std_combines heap_std_ba_def)

lemma build_std_main:
  "build_merkle_tree libstdcxx_hash
     [''Soham is goated'', ''Adithya is kinda lame'', ''another example data block'', ''boom''] =
   Inr (heap_std_main, Some 6)"
  by (simp only: four_blocks_tree main_digests heap_std_main_def)

lemma build_std_12:
  "build_merkle_tree libstdcxx_hash
     [[CHR 0x08, CHR 0x77, CHR 0x53, CHR 0x2F, CHR 0x53, CHR 0xA9, CHR 0x6C, CHR 0x5B],
      [CHR 0x1C, CHR 0xAA, CHR 0x92, CHR 0x7F, CHR 0xF3, CHR 0x9B, CHR 0x52, CHR 0x91],
      [CHR 0x7B, CHR 0xA9, CHR 0x43, CHR 0xA3, CHR 0x88, CHR 0x91, CHR 0x2C, CHR 0x67],
      ''b''] =
   Inr (heap_std_12, Some 6)"
  by (simp only: four_blocks_tree std_digests std_combines heap_std_12_def)

section \<open>The shape of the built tree\<close>

lemma complete_tree_level:
  assumes sh: "tree_shape n (n - 1) h" and n: "n = 2 ^ k"
  shows "j \<le> k \<Longrightarrow> 2 * n \<le> a + 2 * 2 ^ (k - j) \<Longrightarrow> a + 2 ^ (k - j) < 2 * n \<Longrightarrow> complete_tree h a j"
proof (induction j arbitrary: a)
  case 0
  then have "a < n" using n by simp
  moreover have "0 < n" using n by simp
  ultimately show ?case using sh by (simp add: tree_shape_def)
next
  case (Suc j)
  define m :: nat where "m = 2 ^ (k - Suc j)"
  have kj: "(2::nat) ^ (k - j) = 2 * m"
    using Suc.prems(1) by (simp add: m_def flip: power_Suc Suc_diff_Suc)
  have "(2::nat) ^ k = 2 ^ (Suc j + (k - Suc j))" using Suc.prems(1) by simp
  then have nm: "n = 2 ^ Suc j * m" by (simp only: n m_def power_add)
  have "(1::nat) \<le> 2 ^ j" by simp
  then have "2 * m \<le> n" using nm by simp
  have m0: "0 < m" by (simp add: m_def)
  have lo: "2 * n \<le> a + 2 * m" and hi: "a + m < 2 * n" using Suc.prems(2,3) by (simp_all add: m_def)
  have an: "n \<le> a" using lo \<open>2 * m \<le> n\<close> by simp
  have alen: "a < n + (n - 1)" using hi m0 by simp
  have fields: "left (h ! a) = Some (2 * (a - n))" "right (h ! a) = Some (2 * (a - n) + 1)"
    using sh alen an by (simp_all add: tree_shape_def)
  have "complete_tree h (2 * (a - n)) j"
    using Suc.prems(1) lo hi an by (intro Suc.IH) (simp_all add: kj)
  moreover have "complete_tree h (2 * (a - n) + 1) j"
    using Suc.prems(1) lo hi an by (intro Suc.IH) (simp_all add: kj)
  moreover have "a < length h" using sh alen by (simp add: tree_shape_def)
  ultimately show ?case by (simp add: fields)
qed

lemma tree_shape_links:
  assumes sh: "tree_shape n (n - 1) h" and x: "x < length h" and q: "q < length h"
  shows "(left (h ! q) = Some x \<or> right (h ! q) = Some x) \<longleftrightarrow> parent (h ! x) = Some q"
proof -
  have len: "length h = n + (n - 1)" using sh by (simp add: tree_shape_def)
  have fq: "left (h ! q) = (if q < n then None else Some (2 * (q - n)))"
      "right (h ! q) = (if q < n then None else Some (2 * (q - n) + 1))"
    using sh q len by (simp_all add: tree_shape_def)
  have fx: "parent (h ! x) = (if x < 2 * (n - 1) then Some (n + x div 2) else None)"
    using sh x len by (simp add: tree_shape_def)
  show ?thesis
    unfolding fq fx using x q len by (auto split: if_splits)
qed

lemma tree_hashes_children:
  assumes sh: "tree_shape n (n - 1) h" and hs: "tree_hashes hasher bs h" and "length bs = n"
    and a: "a < length h" and l: "left (h ! a) = Some l" and r: "right (h ! a) = Some r"
  shows "hash (h ! a) = combine_hashes hasher (hash (h ! l)) (hash (h ! r))"
proof -
  have len: "length h = n + (n - 1)" using sh by (simp add: tree_shape_def)
  have fa: "left (h ! a) = (if a < n then None else Some (2 * (a - n)))"
      "right (h ! a) = (if a < n then None else Some (2 * (a - n) + 1))"
    using sh a len by (simp_all add: tree_shape_def)
  with l r have "\<not> a < n" "l = 2 * (a - n)" "r = 2 * (a - n) + 1" by (auto split: if_splits)
  then show ?thesis using hs a assms(3) by (simp add: tree_hashes_def)
qed

text \<open>
  C9. The tree built from a non-empty input: with \<open>2 ^ k\<close> the padded leaf count, the store
  holds \<open>2 * 2 ^ k - 1\<close> nodes, the nodes under the root form a complete binary tree of
  height \<open>k\<close>, the root has no parent, the hash of every node with two children is
  \<open>combine_hashes\<close> of the children's hashes, left first, and for all nodes \<open>x\<close> and \<open>q\<close>,
  \<open>x\<close> is the left or the right child of \<open>q\<close> exactly when the parent of \<open>x\<close> is \<open>q\<close>.
\<close>

theorem built_tree_invariant:
  assumes "data_blocks \<noteq> []"
  shows "\<exists>h root k.
     build_merkle_tree hasher data_blocks = Inr (h, Some root) \<and>
     length (pad_blocks data_blocks) = 2 ^ k \<and>
     length h = 2 * 2 ^ k - 1 \<and>
     complete_tree h root k \<and>
     parent (h ! root) = None \<and>
     (\<forall>a l r. a < length h \<and> left (h ! a) = Some l \<and> right (h ! a) = Some r \<longrightarrow>
        hash (h ! a) = combine_hashes hasher (hash (h ! l)) (hash (h ! r))) \<and>
     (\<forall>x q. x < length h \<and> q < length h \<longrightarrow>
        ((left (h ! q) = Some x \<or> right (h ! q) = Some x) \<longleftrightarrow> parent (h ! x) = Some q))"
proof -
  define n where "n = length (pad_blocks data_blocks)"
  obtain k where k: "n = 2 ^ k" using pad_blocks_length [OF assms] n_def by blast
  obtain h where b: "build_merkle_tree hasher data_blocks = Inr (h, Some (2 * n - 2))"
     and sh: "tree_shape n (n - 1) h" and hs: "tree_hashes hasher (pad_blocks data_blocks) h"
    using build_merkle_tree_shape [OF assms n_def] by blast
  have n0: "0 < n" using k by simp
  have len: "length h = 2 * 2 ^ k - 1" using sh k n0 by (simp add: tree_shape_def)
  have "complete_tree h (2 * n - 2) k"
    using sh k by (rule complete_tree_level) (use n0 in simp_all)
  moreover have "parent (h ! (2 * n - 2)) = None"
    using sh n0 by (simp add: tree_shape_def)
  moreover have "hash (h ! a) = combine_hashes hasher (hash (h ! l)) (hash (h ! r))"
    if "a < length h" "left (h ! a) = Some l" "right (h ! a) = Some r" for a l r
    using sh hs n_def [symmetric] that by (rule tree_hashes_children)
  moreover have "(left (h ! q) = Some x \<or> right (h ! q) = Some x) \<longleftrightarrow> parent (h ! x) = Some q"
    if "x < length h" "q < length h" for x q
    using sh that by (rule tree_shape_links)
  ultimately show ?thesis using b k len unfolding n_def by blast
qed

theorem built_tree_invariant_witness:
  "[''A'', ''B'', ''C''] \<noteq> [] \<and>
   build_merkle_tree poly_hasher [''A'', ''B'', ''C''] = Inr (heap_abc, Some 6) \<and>
   length (pad_blocks [''A'', ''B'', ''C'']) = 2 ^ 2 \<and>
   length heap_abc = 2 * 2 ^ 2 - 1 \<and>
   complete_tree heap_abc 6 2 \<and>
   parent (heap_abc ! 6) = None \<and>
   left (heap_abc ! 6) = Some 4 \<and> right (heap_abc ! 6) = Some 5 \<and>
   hash (heap_abc ! 6) = combine_hashes poly_hasher (hash (heap_abc ! 4)) (hash (heap_abc ! 5)) \<and>
   right (heap_abc ! 5) = Some 3 \<and> parent (heap_abc ! 3) = Some 5"
proof -
  obtain h root k where b: "build_merkle_tree poly_hasher [''A'', ''B'', ''C''] = Inr (h, Some root)"
    and p: "length (pad_blocks [''A'', ''B'', ''C'']) = 2 ^ k"
    and len: "length h = 2 * 2 ^ k - 1"
    and ct: "complete_tree h root k"
    and rt: "parent (h ! root) = None"
    and hs: "\<forall>a l r. a < length h \<and> left (h ! a) = Some l \<and> right (h ! a) = Some r \<longrightarrow>
        hash (h ! a) = combine_hashes poly_hasher (hash (h ! l)) (hash (h ! r))"
    and ln: "\<forall>x q. x < length h \<and> q < length h \<longrightarrow>
        ((left (h ! q) = Some x \<or> right (h ! q) = Some x) \<longleftrightarrow> parent (h ! x) = Some q)"
    using built_tree_invariant [of "[''A'', ''B'', ''C'']" poly_hasher] by auto
  have h: "h = heap_abc" and root: "root = 6" using b by (simp_all add: build_abc)
  have "(2::nat) ^ k = 2 ^ 2" using p by (simp add: pad_abc)
  then have k: "k = 2" by (simp only: power_inject_exp one_less_numeral_iff semiring_norm)
  have f: "length heap_abc = 7" "left (heap_abc ! 6) = Some 4" "right (heap_abc ! 6) = Some 5"
     "right (heap_abc ! 5) = Some 3"
    by (simp_all add: heap_abc_def)
  have "hash (heap_abc ! 6) = combine_hashes poly_hasher (hash (heap_abc ! 4)) (hash (heap_abc ! 5))"
    using hs [rule_format, of 6 4 5] f by (simp add: h)
  moreover have "parent (heap_abc ! 3) = Some 5"
    using ln [rule_format, of 3 5] f by (simp add: h)
  ultimately show ?thesis using b p len ct rt f unfolding h root k by simp
qed

section \<open>Generated proofs\<close>

lemma proof_loop_root:
  assumes "a < length h" and "parent (h ! a) = None"
  shows "proof_loop h (Some a) acc = Some (Inr acc)"
  using assms by (subst proof_loop.simps) simp

lemma proof_loop_up:
  assumes "a < length h" and "parent (h ! a) = Some q" and "q < length h"
    and "(if left (h ! q) = Some a then right (h ! q) else left (h ! q)) = Some s" and "s < length h"
  shows "proof_loop h (Some a) acc = proof_loop h (Some q) (acc @ [hash (h ! s)])"
  using assms by (subst proof_loop.simps) simp

lemma proof_loop_level:
  assumes sh: "tree_shape n (n - 1) h" and n: "n = 2 ^ k"
  shows "j \<le> k \<Longrightarrow> 2 * n \<le> a + 2 * 2 ^ (k - j) \<Longrightarrow> a + 2 ^ (k - j) < 2 * n \<Longrightarrow>
     \<exists>sibs. proof_loop h (Some a) acc = Some (Inr (acc @ sibs)) \<and> length sibs = k - j \<and>
            sibling_path h a (2 * n - 2) sibs"
proof (induction "k - j" arbitrary: a j acc)
  case 0
  then have "a = 2 * n - 2" by simp
  moreover have "0 < n" using n by simp
  ultimately have "a < length h" "parent (h ! a) = None"
    using sh by (simp_all add: tree_shape_def)
  then have "proof_loop h (Some a) acc = Some (Inr acc)" by (rule proof_loop_root)
  then show ?case using 0 \<open>a = 2 * n - 2\<close> by simp
next
  case (Suc d)
  define m :: nat where "m = 2 ^ (k - Suc j)"
  have jk: "Suc j \<le> k" using Suc.hyps(2) by simp
  have kj: "(2::nat) ^ (k - j) = 2 * m"
    using jk by (simp add: m_def flip: power_Suc Suc_diff_Suc)
  have m0: "0 < m" by (simp add: m_def)
  have n0: "0 < n" using n by simp
  have lo: "2 * n \<le> a + 4 * m" and hi: "a + 2 * m < 2 * n" using Suc.prems(2,3) by (simp_all add: kj)
  define q where "q = n + a div 2"
  define s where "s = (if even a then a + 1 else a - 1)"
  have a2: "a < 2 * (n - 1)" using hi m0 by simp
  have alen: "a < length h" using sh a2 by (simp add: tree_shape_def)
  have par: "parent (h ! a) = Some q" using sh a2 by (simp add: tree_shape_def q_def)
  have qlen: "q < n + (n - 1)" using a2 by (simp add: q_def)
  then have qlen': "q < length h" using sh by (simp add: tree_shape_def)
  have ql: "left (h ! q) = Some (2 * (a div 2))" and qr: "right (h ! q) = Some (2 * (a div 2) + 1)"
    using sh qlen by (simp_all add: tree_shape_def q_def)
  have sib: "(if left (h ! q) = Some a then right (h ! q) else left (h ! q)) = Some s"
    unfolding ql qr s_def by (cases "even a") (auto elim: oddE)
  have slen: "s < length h" using alen a2 sh by (auto simp: s_def tree_shape_def elim: evenE)
  have step: "proof_loop h (Some a) acc = proof_loop h (Some q) (acc @ [hash (h ! s)])"
    using alen par qlen' sib slen by (rule proof_loop_up)
  have d: "d = k - Suc j" using Suc.hyps(2) by simp
  have qlo: "2 * n \<le> q + 2 * 2 ^ (k - Suc j)" using lo by (simp add: q_def flip: m_def)
  have qhi: "q + 2 ^ (k - Suc j) < 2 * n" using hi by (simp add: q_def flip: m_def)
  obtain sibs where rec: "proof_loop h (Some q) (acc @ [hash (h ! s)]) = Some (Inr ((acc @ [hash (h ! s)]) @ sibs))"
      and len: "length sibs = k - Suc j" and path: "sibling_path h q (2 * n - 2) sibs"
    using Suc.hyps(1) [OF d jk qlo qhi] by blast
  have l2: "2 * (a div 2) < length h" "2 * (a div 2) + 1 < length h"
  proof -
    show "2 * (a div 2) < length h" using alen by simp
    show "2 * (a div 2) + 1 < length h"
    proof (cases "even a")
      case True
      then have "2 * (a div 2) + 1 = s" by (auto simp: s_def elim: evenE)
      then show ?thesis using slen by simp
    next
      case False
      then have "2 * (a div 2) + 1 = a" by (auto elim: oddE)
      then show ?thesis using alen by simp
    qed
  qed
  have "sibling_path h a (2 * n - 2) (hash (h ! s) # sibs)"
    using alen par qlen' path l2 by (cases "even a") (auto simp: ql qr s_def elim: evenE oddE)
  moreover have "length (hash (h ! s) # sibs) = k - j" using len jk by simp
  ultimately show ?case using step rec by (intro exI [of _ "hash (h ! s) # sibs"]) simp
qed

text \<open>
  C4. In the tree built from a non-empty input with \<open>p\<close> padded leaves, the walk from every
  leaf ends, without error, with a list of exactly \<open>log2 p\<close> entries (\<open>2 ^ length = p\<close>),
  and the list is ordered from the hash of the leaf's own sibling up to the hash of a
  child of the root.
\<close>

theorem proof_has_log2_entries:
  assumes "data_blocks \<noteq> []"
  shows "\<exists>h root.
     build_merkle_tree hasher data_blocks = Inr (h, Some root) \<and>
     (\<forall>a. a < length h \<and> left (h ! a) = None \<and> right (h ! a) = None \<longrightarrow>
        (\<exists>sibs. generate_merkle_proof h (Some root) (Some a) = Some (Inr sibs) \<and>
                2 ^ length sibs = length (pad_blocks data_blocks) \<and>
                sibling_path h a root sibs))"
proof -
  define n where "n = length (pad_blocks data_blocks)"
  obtain k where k: "n = 2 ^ k" using pad_blocks_length [OF assms] n_def by blast
  obtain h where b: "build_merkle_tree hasher data_blocks = Inr (h, Some (2 * n - 2))"
     and sh: "tree_shape n (n - 1) h"
    using build_merkle_tree_shape [OF assms n_def] by blast
  have "\<exists>sibs. generate_merkle_proof h (Some (2 * n - 2)) (Some a) = Some (Inr sibs) \<and>
                2 ^ length sibs = n \<and> sibling_path h a (2 * n - 2) sibs"
    if a: "a < length h" and l: "left (h ! a) = None" for a
  proof -
    have "a < n" using sh a l by (auto simp: tree_shape_def split: if_splits)
    then obtain sibs where "proof_loop h (Some a) [] = Some (Inr ([] @ sibs))"
        and "length sibs = k - 0" and "sibling_path h a (2 * n - 2) sibs"
      using proof_loop_level [OF sh k, of 0 a "[]"] k by auto
    then show ?thesis using k by (auto simp: generate_merkle_proof_def)
  qed
  then show ?thesis using b unfolding n_def by blast
qed

theorem proof_has_log2_entries_witness:
  "[''A'', ''B'', ''C''] \<noteq> [] \<and>
   build_merkle_tree poly_hasher [''A'', ''B'', ''C''] = Inr (heap_abc, Some 6) \<and>
   2 < length heap_abc \<and> left (heap_abc ! 2) = None \<and> right (heap_abc ! 2) = None \<and>
   generate_merkle_proof heap_abc (Some 6) (Some 2) = Some (Inr [''95'', ''1661375'']) \<and>
   2 ^ length [''95'', ''1661375''] = length (pad_blocks [''A'', ''B'', ''C'']) \<and>
   sibling_path heap_abc 2 6 [''95'', ''1661375'']"
proof -
  obtain h root where b: "build_merkle_tree poly_hasher [''A'', ''B'', ''C''] = Inr (h, Some root)"
    and g: "\<forall>a. a < length h \<and> left (h ! a) = None \<and> right (h ! a) = None \<longrightarrow>
        (\<exists>sibs. generate_merkle_proof h (Some root) (Some a) = Some (Inr sibs) \<and>
                2 ^ length sibs = length (pad_blocks [''A'', ''B'', ''C'']) \<and>
                sibling_path h a root sibs)"
    using proof_has_log2_entries [of "[''A'', ''B'', ''C'']" poly_hasher] by auto
  have h: "h = heap_abc" and root: "root = 6" using b by (simp_all add: build_abc)
  have f: "2 < length heap_abc" "left (heap_abc ! 2) = None" "right (heap_abc ! 2) = None"
    by (simp_all add: heap_abc_def)
  then obtain sibs where s: "generate_merkle_proof heap_abc (Some 6) (Some 2) = Some (Inr sibs)"
    and l: "2 ^ length sibs = length (pad_blocks [''A'', ''B'', ''C''])"
    and sp: "sibling_path heap_abc 2 6 sibs"
    using g [rule_format, of 2] unfolding h root by blast
  have "generate_merkle_proof heap_abc (Some 6) (Some 2) = Some (Inr [''95'', ''1661375''])"
    by (simp add: generate_merkle_proof_def proof_loop.simps heap_abc_def)
  with s have "sibs = [''95'', ''1661375'']" by simp
  with s l sp f build_abc show ?thesis by simp
qed

section \<open>Verification\<close>

lemma verify_step_spec: "verify_step hasher c s = spec_combine hasher c s"
  by (auto simp: verify_step_def spec_combine_def min_def max_def)

lemma verify_loop_foldl: "verify_loop hasher c sibs = foldl (spec_combine hasher) c sibs"
  by (induction sibs arbitrary: c) (simp_all add: verify_step_spec)

text \<open>
  C5. For a root node, a leaf node and any proof list, \<open>verify\<close> computes what the
  description says: it folds the proof from the leaf's hash, each step passing the smaller
  of the current hash and the entry as the left argument of \<open>combine_hashes\<close> and the larger
  as the right one, and returns true exactly when the result is the root's hash.
\<close>

theorem verify_ordered_fold:
  assumes "deref h root = Inr rt" and "deref h leaf = Inr lf"
  shows "verify hasher h root leaf merkle_proof = Inr (spec_verify hasher (hash rt) (hash lf) merkle_proof)"
  using assms by (simp add: verify_def spec_verify_def verify_loop_foldl)

theorem verify_ordered_fold_witness:
  "deref heap_ab (Some 2) = Inr \<lparr>hash = ''1752765'', left = Some 0, right = Some 1, parent = None\<rparr> \<and>
   deref heap_ab (Some 0) = Inr \<lparr>hash = ''97'', left = None, right = None, parent = Some 2\<rparr> \<and>
   verify poly_hasher heap_ab (Some 2) (Some 0) [''98''] = Inr (spec_verify poly_hasher ''1752765'' ''97'' [''98'']) \<and>
   spec_verify poly_hasher ''1752765'' ''97'' [''98'']"
proof -
  have r: "deref heap_ab (Some 2) = Inr \<lparr>hash = ''1752765'', left = Some 0, right = Some 1, parent = None\<rparr>"
    by (simp add: heap_ab_def)
  have l: "deref heap_ab (Some 0) = Inr \<lparr>hash = ''97'', left = None, right = None, parent = Some 2\<rparr>"
    by (simp add: heap_ab_def)
  have "spec_verify poly_hasher ''1752765'' ''97'' [''98'']"
    by (simp add: spec_verify_def spec_combine_def min_def max_def poly_eval)
  with r l verify_ordered_fold [OF r l, of poly_hasher "[''98'']"] show ?thesis by simp
qed

text \<open>
  C7. For a root node, a leaf node and any proof list, \<open>verify\<close> returns a boolean and no
  error; on the empty proof it returns true exactly when the leaf's hash is the root's hash.
  (The two pointers designate nodes of the store: the source dereferences both.)
\<close>

theorem verify_total:
  assumes "deref h root = Inr rt" and "deref h leaf = Inr lf"
  shows "(\<exists>b. verify hasher h root leaf merkle_proof = Inr b) \<and>
         verify hasher h root leaf [] = Inr (hash lf = hash rt)"
  using assms by (simp add: verify_def)

theorem verify_total_witness:
  "deref heap_ab (Some 2) = Inr \<lparr>hash = ''1752765'', left = Some 0, right = Some 1, parent = None\<rparr> \<and>
   deref heap_ab (Some 0) = Inr \<lparr>hash = ''97'', left = None, right = None, parent = Some 2\<rparr> \<and>
   (\<exists>b. verify poly_hasher heap_ab (Some 2) (Some 0) [''junk'', ''''] = Inr b) \<and>
   verify poly_hasher heap_ab (Some 2) (Some 0) [] = Inr False"
proof -
  have r: "deref heap_ab (Some 2) = Inr \<lparr>hash = ''1752765'', left = Some 0, right = Some 1, parent = None\<rparr>"
    by (simp add: heap_ab_def)
  have l: "deref heap_ab (Some 0) = Inr \<lparr>hash = ''97'', left = None, right = None, parent = Some 2\<rparr>"
    by (simp add: heap_ab_def)
  from r l verify_total [OF r l, of poly_hasher "[''junk'', '''']"] show ?thesis by simp
qed

text \<open>
  C10. \<open>verify\<close> from the leaf hash \<open>a\<close> with the proof \<open>b # sibs\<close> returns what it returns
  from the leaf hash \<open>b\<close> with the proof \<open>a # sibs\<close>: the first step orders the two by
  comparison, not by position.
\<close>

theorem verify_swap_leaf_and_first_entry:
  assumes "deref h leaf_a = Inr na" and "deref h leaf_b = Inr nb"
  shows "verify hasher h root leaf_a (hash nb # prf) = verify hasher h root leaf_b (hash na # prf)"
proof -
  have "verify_step hasher (hash na) (hash nb) = verify_step hasher (hash nb) (hash na)"
    by (auto simp: verify_step_def)
  then show ?thesis using assms by (simp add: verify_def)
qed

theorem verify_swap_leaf_and_first_entry_witness:
  "deref heap_ab (Some 0) = Inr \<lparr>hash = ''97'', left = None, right = None, parent = Some 2\<rparr> \<and>
   deref heap_ab (Some 1) = Inr \<lparr>hash = ''98'', left = None, right = None, parent = Some 2\<rparr> \<and>
   verify poly_hasher heap_ab (Some 2) (Some 0) [''98''] = verify poly_hasher heap_ab (Some 2) (Some 1) [''97''] \<and>
   verify poly_hasher heap_ab (Some 2) (Some 1) [''97''] = Inr True"
proof -
  have a: "deref heap_ab (Some 0) = Inr \<lparr>hash = ''97'', left = None, right = None, parent = Some 2\<rparr>"
    by (simp add: heap_ab_def)
  have b: "deref heap_ab (Some 1) = Inr \<lparr>hash = ''98'', left = None, right = None, parent = Some 2\<rparr>"
    by (simp add: heap_ab_def)
  have "verify poly_hasher heap_ab (Some 2) (Some 1) [''97''] = Inr True"
    by (simp add: verify_def verify_step_def heap_ab_def poly_eval)
  with a b verify_swap_leaf_and_first_entry [OF a b, of poly_hasher "Some 2" "[]"] show ?thesis by simp
qed

section \<open>The round trip\<close>

text \<open>
  C1. \<open>build_merkle_tree\<close> combines the children by position, left first; \<open>verify\<close> combines
  by comparison, smaller first. Under the library hash the blocks \<^verbatim>\<open>"a"\<close>, \<^verbatim>\<open>"b"\<close> have the
  leaf hashes \<^verbatim>\<open>"4993892634952068459"\<close> and \<^verbatim>\<open>"10838281452030117757"\<close>: the left one is the
  greater string. The root is the hash of the two in this order; \<open>verify\<close> hashes them in
  the other order and returns false, for each of the two leaves with the proof that
  \<open>generate_merkle_proof\<close> returns for it.
\<close>

theorem roundtrip_rejected:
  "build_merkle_tree libstdcxx_hash [''a'', ''b''] = Inr (heap_std_ab, Some 2) \<and>
   left (heap_std_ab ! 0) = None \<and> right (heap_std_ab ! 0) = None \<and>
   generate_merkle_proof heap_std_ab (Some 2) (Some 0) = Some (Inr [''10838281452030117757'']) \<and>
   verify libstdcxx_hash heap_std_ab (Some 2) (Some 0) [''10838281452030117757''] = Inr False \<and>
   left (heap_std_ab ! 1) = None \<and> right (heap_std_ab ! 1) = None \<and>
   generate_merkle_proof heap_std_ab (Some 2) (Some 1) = Some (Inr [''4993892634952068459'']) \<and>
   verify libstdcxx_hash heap_std_ab (Some 2) (Some 1) [''4993892634952068459''] = Inr False"
proof -
  have "generate_merkle_proof heap_std_ab (Some 2) (Some 0) = Some (Inr [''10838281452030117757''])"
    "generate_merkle_proof heap_std_ab (Some 2) (Some 1) = Some (Inr [''4993892634952068459''])"
    by (simp_all add: generate_merkle_proof_def proof_loop.simps heap_std_ab_def)
  moreover have
    "verify libstdcxx_hash heap_std_ab (Some 2) (Some 0) [''10838281452030117757''] = Inr False"
    "verify libstdcxx_hash heap_std_ab (Some 2) (Some 1) [''4993892634952068459''] = Inr False"
    by (simp_all add: verify_def verify_step_def heap_std_ab_def std_combines)
  moreover have "left (heap_std_ab ! 0) = None" "right (heap_std_ab ! 0) = None"
    "left (heap_std_ab ! 1) = None" "right (heap_std_ab ! 1) = None"
    by (simp_all add: heap_std_ab_def)
  ultimately show ?thesis by (simp only: build_std_ab simp_thms)
qed

text \<open>
  The four blocks of the program's own \<^verbatim>\<open>main\<close>: the proof generated for the first leaf is
  rejected too, at the second level, where the left hash is the greater one.
\<close>

lemma roundtrip_rejected_main_blocks:
  "build_merkle_tree libstdcxx_hash
     [''Soham is goated'', ''Adithya is kinda lame'', ''another example data block'', ''boom''] =
     Inr (heap_std_main, Some 6) \<and>
   generate_merkle_proof heap_std_main (Some 6) (Some 0) =
     Some (Inr [''16290458225805909122'', ''12704162468044174438'']) \<and>
   verify libstdcxx_hash heap_std_main (Some 6) (Some 0)
     [''16290458225805909122'', ''12704162468044174438''] = Inr False"
proof -
  have "generate_merkle_proof heap_std_main (Some 6) (Some 0) =
     Some (Inr [''16290458225805909122'', ''12704162468044174438''])"
    by (simp add: generate_merkle_proof_def proof_loop.simps heap_std_main_def)
  moreover have "verify libstdcxx_hash heap_std_main (Some 6) (Some 0)
     [''16290458225805909122'', ''12704162468044174438''] = Inr False"
    by (simp add: verify_def verify_step_def heap_std_main_def main_digests)
  ultimately show ?thesis by (simp only: build_std_main simp_thms)
qed

text \<open>
  For every hash function: when the digest of the second of two blocks is the smaller
  string and \<open>combine_hashes\<close> gives different digests for the two orders, both generated
  proofs are rejected.
\<close>

lemma two_blocks_wrong_order:
  assumes "simple_hash hasher b2 < simple_hash hasher b1"
    and "combine_hashes hasher (simple_hash hasher b1) (simple_hash hasher b2) \<noteq>
         combine_hashes hasher (simple_hash hasher b2) (simple_hash hasher b1)"
  shows "\<exists>h root. build_merkle_tree hasher [b1, b2] = Inr (h, root) \<and>
           generate_merkle_proof h root (Some 0) = Some (Inr [simple_hash hasher b2]) \<and>
           verify hasher h root (Some 0) [simple_hash hasher b2] = Inr False \<and>
           generate_merkle_proof h root (Some 1) = Some (Inr [simple_hash hasher b1]) \<and>
           verify hasher h root (Some 1) [simple_hash hasher b1] = Inr False"
proof -
  have "\<not> simple_hash hasher b1 < simple_hash hasher b2" using assms(1) by simp
  then show ?thesis
    using assms
    by (simp add: two_blocks_tree generate_merkle_proof_def proof_loop.simps verify_def verify_step_def)
qed

section \<open>Tampering\<close>

lemma verify_step_ordered_pair:
  "verify_step hasher c s =
     combine_hashes hasher (fst (ordered_pair c s)) (snd (ordered_pair c s))"
  by (simp add: verify_step_def ordered_pair_def)

lemma ordered_pair_current_inj: "ordered_pair c s = ordered_pair c' s \<longleftrightarrow> c = c'"
  by (auto simp: ordered_pair_def split: if_splits)

lemma ordered_pair_entry_inj: "ordered_pair c e = ordered_pair c z \<longleftrightarrow> e = z"
  by (auto simp: ordered_pair_def split: if_splits)

lemma verify_step_current_collision:
  "c \<noteq> c' \<Longrightarrow>
   verify_step hasher c s = verify_step hasher c' s \<longleftrightarrow>
     collision hasher (ordered_pair c s) (ordered_pair c' s)"
  by (simp add: verify_step_ordered_pair collision_def ordered_pair_current_inj)

lemma verify_step_entry_collision:
  "e \<noteq> z \<Longrightarrow>
   verify_step hasher c e = verify_step hasher c z \<longleftrightarrow>
     collision hasher (ordered_pair c e) (ordered_pair c z)"
  by (simp add: verify_step_ordered_pair collision_def ordered_pair_entry_inj)

lemma collides_Cons [simp]:
  "collides hasher (p # ps) (q # qs) \<longleftrightarrow> collision hasher p q \<or> collides hasher ps qs"
  by (simp add: collides_def)

lemma collides_Nil [simp]: "collides hasher [] qs \<longleftrightarrow> False"
  by (simp add: collides_def)

lemma collides_same_prefix: "collides hasher (xs @ ps) (xs @ qs) \<longleftrightarrow> collides hasher ps qs"
  by (induction xs) (simp_all add: collision_def)

lemma verify_loop_append:
  "verify_loop hasher c (xs @ ys) = verify_loop hasher (verify_loop hasher c xs) ys"
  by (induction xs arbitrary: c) simp_all

lemma combine_calls_append:
  "combine_calls hasher c (xs @ ys) =
     combine_calls hasher c xs @ combine_calls hasher (verify_loop hasher c xs) ys"
  by (induction xs arbitrary: c) simp_all

lemma verify_loop_current_changed:
  "verify_loop hasher d sibs = verify_loop hasher d' sibs \<longleftrightarrow>
     d = d' \<or> collides hasher (combine_calls hasher d sibs) (combine_calls hasher d' sibs)"
proof (induction sibs arbitrary: d d')
  case Nil
  show ?case by simp
next
  case (Cons s sibs)
  show ?case
  proof (cases "d = d'")
    case True
    then show ?thesis by simp
  next
    case False
    then show ?thesis
      using Cons.IH [of "verify_step hasher d s" "verify_step hasher d' s"]
      by (simp add: verify_step_current_collision)
  qed
qed

lemma verify_loop_entry_changed:
  assumes i: "i < length sibs" and z: "z \<noteq> sibs ! i"
  shows "verify_loop hasher c (sibs[i := z]) = verify_loop hasher c sibs \<longleftrightarrow>
     collides hasher (combine_calls hasher c sibs) (combine_calls hasher c (sibs[i := z]))"
proof -
  define pre where "pre = take i sibs"
  define post where "post = drop (Suc i) sibs"
  define e where "e = sibs ! i"
  define d where "d = verify_loop hasher c pre"
  have s: "sibs = pre @ e # post"
    unfolding pre_def post_def e_def using i by (rule id_take_nth_drop)
  have s': "sibs[i := z] = pre @ z # post"
    unfolding pre_def post_def using i by (rule upd_conv_take_nth_drop)
  have ez: "e \<noteq> z" using z by (simp add: e_def)
  have "verify_loop hasher c (pre @ z # post) = verify_loop hasher c (pre @ e # post) \<longleftrightarrow>
      verify_loop hasher (verify_step hasher d e) post = verify_loop hasher (verify_step hasher d z) post"
    by (auto simp: verify_loop_append d_def)
  also have "\<dots> \<longleftrightarrow> verify_step hasher d e = verify_step hasher d z \<or>
      collides hasher (combine_calls hasher (verify_step hasher d e) post)
        (combine_calls hasher (verify_step hasher d z) post)"
    by (rule verify_loop_current_changed)
  also have "\<dots> \<longleftrightarrow>
      collides hasher (combine_calls hasher c (pre @ e # post)) (combine_calls hasher c (pre @ z # post))"
    by (simp add: combine_calls_append collides_same_prefix verify_step_entry_collision [OF ez] d_def)
  finally show ?thesis by (simp only: s' s [symmetric])
qed

text \<open>
  C8, as amended. Let \<open>verify\<close> accept the proof \<open>sibs\<close> for a leaf. After one entry of \<open>sibs\<close>
  is changed to a different value, or the leaf is replaced by one with a different hash
  and the proof kept, \<open>verify\<close> returns false unless \<open>combine_hashes\<close> collides on the way up,
  and true if it does: it returns true exactly when, at some level, the accepted and the
  tampered recomputation call \<open>combine_hashes\<close> on different argument pairs and get the same
  digest.
\<close>

theorem tampering_accepted_iff_collision:
  assumes "deref h root = Inr rt" and "deref h leaf = Inr lf"
    and "verify hasher h root leaf sibs = Inr True"
  shows "(\<forall>i z. i < length sibs \<and> z \<noteq> sibs ! i \<longrightarrow>
            verify hasher h root leaf (sibs[i := z]) =
              Inr (collides hasher (combine_calls hasher (hash lf) sibs)
                     (combine_calls hasher (hash lf) (sibs[i := z])))) \<and>
         (\<forall>leaf' lf'. deref h leaf' = Inr lf' \<and> hash lf' \<noteq> hash lf \<longrightarrow>
            verify hasher h root leaf' sibs =
              Inr (collides hasher (combine_calls hasher (hash lf) sibs)
                     (combine_calls hasher (hash lf') sibs)))"
proof -
  have ok: "verify_loop hasher (hash lf) sibs = hash rt"
    using assms by (simp add: verify_def split: if_splits)
  have "verify hasher h root leaf (sibs[i := z]) =
      Inr (collides hasher (combine_calls hasher (hash lf) sibs)
             (combine_calls hasher (hash lf) (sibs[i := z])))"
    if "i < length sibs" "z \<noteq> sibs ! i" for i z
    using verify_loop_entry_changed [OF that, of hasher "hash lf"] assms(1,2) ok
    by (simp add: verify_def)
  moreover have "verify hasher h root leaf' sibs =
      Inr (collides hasher (combine_calls hasher (hash lf) sibs)
             (combine_calls hasher (hash lf') sibs))"
    if "deref h leaf' = Inr lf'" "hash lf' \<noteq> hash lf" for leaf' lf'
    using verify_loop_current_changed [of hasher "hash lf" sibs "hash lf'"] assms(1) that ok
    by (auto simp: verify_def)
  ultimately show ?thesis by blast
qed

theorem tampering_accepted_iff_collision_witness:
  "deref heap_std_12 (Some 6) =
     Inr \<lparr>hash = ''3449215012450058933'', left = Some 4, right = Some 5, parent = None\<rparr> \<and>
   deref heap_std_12 (Some 0) = Inr \<lparr>hash = ''12'', left = None, right = None, parent = Some 4\<rparr> \<and>
   verify libstdcxx_hash heap_std_12 (Some 6) (Some 0) [''121'', ''6298054015338809633''] = Inr True \<and>
   \<not> collides libstdcxx_hash
       (combine_calls libstdcxx_hash ''12'' [''121'', ''6298054015338809633''])
       (combine_calls libstdcxx_hash ''12'' ([''121'', ''6298054015338809633''][1 := ''0''])) \<and>
   verify libstdcxx_hash heap_std_12 (Some 6) (Some 0) ([''121'', ''6298054015338809633''][1 := ''0'']) =
     Inr False \<and>
   deref heap_std_12 (Some 2) = Inr \<lparr>hash = ''21'', left = None, right = None, parent = Some 5\<rparr> \<and>
   collides libstdcxx_hash
     (combine_calls libstdcxx_hash ''12'' [''121'', ''6298054015338809633''])
     (combine_calls libstdcxx_hash ''21'' [''121'', ''6298054015338809633'']) \<and>
   verify libstdcxx_hash heap_std_12 (Some 6) (Some 2) [''121'', ''6298054015338809633''] = Inr True"
proof -
  have r: "deref heap_std_12 (Some 6) =
     Inr \<lparr>hash = ''3449215012450058933'', left = Some 4, right = Some 5, parent = None\<rparr>"
    by (simp add: heap_std_12_def)
  have l: "deref heap_std_12 (Some 0) = Inr \<lparr>hash = ''12'', left = None, right = None, parent = Some 4\<rparr>"
    by (simp add: heap_std_12_def)
  have l': "deref heap_std_12 (Some 2) = Inr \<lparr>hash = ''21'', left = None, right = None, parent = Some 5\<rparr>"
    by (simp add: heap_std_12_def)
  have v: "verify libstdcxx_hash heap_std_12 (Some 6) (Some 0) [''121'', ''6298054015338809633''] = Inr True"
    by (simp add: verify_def verify_step_def heap_std_12_def std_combines)
  have c1: "\<not> collides libstdcxx_hash
       (combine_calls libstdcxx_hash ''12'' [''121'', ''6298054015338809633''])
       (combine_calls libstdcxx_hash ''12'' ([''121'', ''6298054015338809633''][1 := ''0'']))"
    by (simp add: collision_def ordered_pair_def verify_step_def std_combines)
  have c2: "collides libstdcxx_hash
     (combine_calls libstdcxx_hash ''12'' [''121'', ''6298054015338809633''])
     (combine_calls libstdcxx_hash ''21'' [''121'', ''6298054015338809633''])"
    by (simp add: collision_def ordered_pair_def verify_step_def std_combines)
  note t = tampering_accepted_iff_collision [OF r l v]
  have "verify libstdcxx_hash heap_std_12 (Some 6) (Some 0) ([''121'', ''6298054015338809633''][1 := ''0'']) =
     Inr False"
    using t [THEN conjunct1, rule_format, of 1 "''0''"] c1 by simp
  moreover have "verify libstdcxx_hash heap_std_12 (Some 6) (Some 2) [''121'', ''6298054015338809633''] = Inr True"
    using t [THEN conjunct2, rule_format, of "Some 2"] l' c2 by simp
  ultimately show ?thesis using r l l' v c1 c2 by (simp only: simp_thms)
qed

text \<open>
  C8 as stated fails under the library hash. In the tree of the blocks \<^verbatim>\<open>"b"\<close>, \<^verbatim>\<open>"a"\<close> the
  proof generated for the first leaf is accepted, and so is the proof with its entry
  changed to twelve bytes on which the hash collides. In the tree of four blocks whose
  first three have the digests \<^verbatim>\<open>"12"\<close>, \<^verbatim>\<open>"121"\<close>, \<^verbatim>\<open>"21"\<close>, the proof generated for the first
  leaf is accepted, and so is the third leaf, whose hash is different, with that same
  proof: \<open>verify\<close> hashes \<^verbatim>\<open>"121" + "21"\<close>, the string \<^verbatim>\<open>"12" + "121"\<close> that the tree hashed.
\<close>

theorem tampering_accepted:
  "build_merkle_tree libstdcxx_hash [''b'', ''a''] = Inr (heap_std_ba, Some 2) \<and>
   hash (heap_std_ba ! 0) \<noteq> hash (heap_std_ba ! 1) \<and>
   generate_merkle_proof heap_std_ba (Some 2) (Some 0) = Some (Inr [''4993892634952068459'']) \<and>
   verify libstdcxx_hash heap_std_ba (Some 2) (Some 0) [''4993892634952068459''] = Inr True \<and>
   [CHR 0x39, CHR 0x39, CHR 0x39, CHR 0x39, CHR 0x23, CHR 0x39, CHR 0x06, CHR 0xC8, CHR 0x8F, CHR 0x01,
    CHR 0x52, CHR 0xED] \<noteq> [''4993892634952068459''] ! 0 \<and>
   verify libstdcxx_hash heap_std_ba (Some 2) (Some 0)
     ([''4993892634952068459''][0 :=
        [CHR 0x39, CHR 0x39, CHR 0x39, CHR 0x39, CHR 0x23, CHR 0x39, CHR 0x06, CHR 0xC8, CHR 0x8F,
         CHR 0x01, CHR 0x52, CHR 0xED]]) = Inr True \<and>
   build_merkle_tree libstdcxx_hash
     [[CHR 0x08, CHR 0x77, CHR 0x53, CHR 0x2F, CHR 0x53, CHR 0xA9, CHR 0x6C, CHR 0x5B],
      [CHR 0x1C, CHR 0xAA, CHR 0x92, CHR 0x7F, CHR 0xF3, CHR 0x9B, CHR 0x52, CHR 0x91],
      [CHR 0x7B, CHR 0xA9, CHR 0x43, CHR 0xA3, CHR 0x88, CHR 0x91, CHR 0x2C, CHR 0x67],
      ''b''] = Inr (heap_std_12, Some 6) \<and>
   generate_merkle_proof heap_std_12 (Some 6) (Some 0) =
     Some (Inr [''121'', ''6298054015338809633'']) \<and>
   verify libstdcxx_hash heap_std_12 (Some 6) (Some 0) [''121'', ''6298054015338809633''] = Inr True \<and>
   left (heap_std_12 ! 2) = None \<and> right (heap_std_12 ! 2) = None \<and>
   hash (heap_std_12 ! 2) \<noteq> hash (heap_std_12 ! 0) \<and>
   verify libstdcxx_hash heap_std_12 (Some 6) (Some 2) [''121'', ''6298054015338809633''] = Inr True"
proof -
  have "generate_merkle_proof heap_std_ba (Some 2) (Some 0) = Some (Inr [''4993892634952068459''])"
    by (simp add: generate_merkle_proof_def proof_loop.simps heap_std_ba_def)
  moreover have "verify libstdcxx_hash heap_std_ba (Some 2) (Some 0) [''4993892634952068459''] = Inr True"
    by (simp add: verify_def verify_step_def heap_std_ba_def std_combines)
  moreover have "verify libstdcxx_hash heap_std_ba (Some 2) (Some 0)
     ([''4993892634952068459''][0 :=
        [CHR 0x39, CHR 0x39, CHR 0x39, CHR 0x39, CHR 0x23, CHR 0x39, CHR 0x06, CHR 0xC8, CHR 0x8F,
         CHR 0x01, CHR 0x52, CHR 0xED]]) = Inr True"
    by (simp add: verify_def verify_step_def heap_std_ba_def std_combines)
  moreover have "generate_merkle_proof heap_std_12 (Some 6) (Some 0) =
     Some (Inr [''121'', ''6298054015338809633''])"
    by (simp add: generate_merkle_proof_def proof_loop.simps heap_std_12_def)
  moreover have "verify libstdcxx_hash heap_std_12 (Some 6) (Some 0) [''121'', ''6298054015338809633''] = Inr True"
    "verify libstdcxx_hash heap_std_12 (Some 6) (Some 2) [''121'', ''6298054015338809633''] = Inr True"
    by (simp_all add: verify_def verify_step_def heap_std_12_def std_combines)
  moreover have "hash (heap_std_ba ! 0) \<noteq> hash (heap_std_ba ! 1)"
    by (simp add: heap_std_ba_def)
  moreover have "left (heap_std_12 ! 2) = None" "right (heap_std_12 ! 2) = None"
    "hash (heap_std_12 ! 2) \<noteq> hash (heap_std_12 ! 0)"
    by (simp_all add: heap_std_12_def)
  moreover have "[CHR 0x39, CHR 0x39, CHR 0x39, CHR 0x39, CHR 0x23, CHR 0x39, CHR 0x06, CHR 0xC8, CHR 0x8F,
      CHR 0x01, CHR 0x52, CHR 0xED] \<noteq> [''4993892634952068459''] ! 0"
    by simp
  ultimately show ?thesis by (simp only: build_std_ba build_std_12 simp_thms)
qed

text \<open>
  A failure of this kind needs no collision of the hash function itself. For every hash
  function and every leaf with the hash \<^verbatim>\<open>"121"\<close>, the first proof entry \<^verbatim>\<open>"21"\<close> can be
  changed to \<^verbatim>\<open>"12"\<close>: both make \<open>verify\<close> hash the string \<^verbatim>\<open>"12121"\<close>.
\<close>

lemma entry_reordering_accepted:
  assumes "deref h leaf = Inr lf" and "hash lf = ''121''"
  shows "verify hasher h root leaf (''21'' # sibs) = verify hasher h root leaf (''12'' # sibs)"
  using assms by (simp add: verify_def verify_step_def combine_hashes_def)

text \<open>
  No hash function escapes: the digests are 64-bit words, so for every hash function and
  every current hash there are two different entries, both greater than the current hash,
  on which a step of \<open>verify\<close> gives the same digest.
\<close>

lemma every_hasher_collides:
  "\<exists>z1 z2. z1 \<noteq> z2 \<and> c < z1 \<and> c < z2 \<and>
     verify_step hasher c z1 = verify_step hasher c z2"
proof -
  define f where "f n = hasher (c @ c @ replicate (Suc n) (CHR ''0''))" for n :: nat
  have "finite (range f)" by (rule finite_subset [OF subset_UNIV]) simp
  then have "\<not> inj f" using finite_imageD [of f UNIV] by auto
  then obtain m n where mn: "m \<noteq> n" and eq: "f m = f n" by (auto simp: inj_def)
  define z1 where "z1 = c @ replicate (Suc m) (CHR ''0'')"
  define z2 where "z2 = c @ replicate (Suc n) (CHR ''0'')"
  have "z1 \<noteq> z2" using mn by (auto simp: z1_def z2_def dest: arg_cong [where f = length])
  moreover have "c < z1" "c < z2" unfolding z1_def z2_def by (simp_all add: list_less_def lexord_append_rightI)
  moreover have "verify_step hasher c z1 = verify_step hasher c z2"
    using eq \<open>c < z1\<close> \<open>c < z2\<close> by (simp add: verify_step_def combine_hashes_def f_def z1_def z2_def)
  ultimately show ?thesis by blast
qed

end
